theory Spec2Isabelle
  imports Complex_Main "HOL-Library.Char_ord" "HOL-Library.List_Lexorder"
begin

section \<open>Data model\<close>

text \<open>
  The filter works on OSM entities as libosmium hands them over. The model keeps the
  attributes that \<^verbatim>\<open>osmborder_filter.cpp\<close> reads or writes: the identifier, the tag list
  and the member or node reference list. \<^verbatim>\<open>osmium::object_id_type\<close> is a signed 64-bit
  integer; the program only stores, compares and sorts identifiers, so they are
  modelled as \<^typ>\<open>int\<close>.
\<close>

type_synonym object_id_type = int

text \<open>A tag list is the sequence of key/value pairs in the order they were added.\<close>

type_synonym TagList = "(string \<times> string) list"

datatype item_type = item_node | item_way | item_relation

record RelationMember =
  rm_type :: item_type
  rm_ref :: object_id_type
  rm_role :: string

record Relation =
  relation_id :: object_id_type
  relation_tags :: TagList
  relation_members :: "RelationMember list"

record NodeRef =
  nr_ref :: object_id_type
  nr_location :: "int \<times> int"

record Way =
  way_id :: object_id_type
  way_tags :: TagList
  way_nodes :: "NodeRef list"

record Node =
  node_id :: object_id_type
  node_location :: "int \<times> int"
  node_tags :: TagList

datatype entity = ERelation Relation | EWay Way | ENode Node

text \<open>
  \<^verbatim>\<open>strmap = std::map<std::string,std::string>\<close>: an ordered map. Its iteration order
  (ascending keys, bytewise) is visible in \<^verbatim>\<open>copy_tags\<close>, so it is an association list
  kept sorted by key; \<open>strmap_set\<close> is \<^verbatim>\<open>smap[k] = v\<close>.
\<close>

type_synonym strmap = "(string \<times> string) list"

fun strmap_set :: "string \<Rightarrow> string \<Rightarrow> strmap \<Rightarrow> strmap" where
  "strmap_set k v [] = [(k, v)]"
| "strmap_set k v ((k', v') # m) =
     (if k < k' then (k, v) # (k', v') # m
      else if k = k' then (k, v) # m
      else (k', v') # strmap_set k v m)"

text \<open>
  \<^verbatim>\<open>idset = std::unordered_set<object_id_type>\<close> and
  \<^verbatim>\<open>idmap = std::unordered_map<object_id_type, strmap>\<close>: only membership, lookup,
  insertion and \<^verbatim>\<open>clear\<close> are used.
\<close>

type_synonym idset = "object_id_type set"
type_synonym idmap = "object_id_type \<rightharpoonup> strmap"

record config =
  waymap :: idmap
  yesborder :: idset
  noborder :: idset

section \<open>Tag lookup\<close>

text \<open>
  \<^verbatim>\<open>TagList::has_tag(key, value)\<close> of libosmium looks up the value of the first tag with
  the key and compares it with the value.
\<close>

fun get_value_by_key :: "TagList \<Rightarrow> string \<Rightarrow> string option" where
  "get_value_by_key [] key = None"
| "get_value_by_key ((k, v) # tags) key = (if k = key then Some v else get_value_by_key tags key)"

definition has_tag :: "TagList \<Rightarrow> string \<Rightarrow> string \<Rightarrow> bool" where
  "has_tag tags key val = (case get_value_by_key tags key of None \<Rightarrow> False | Some v \<Rightarrow> v = val)"

section \<open>Pass 1: relations\<close>

text \<open>
  The state of the first pass: what has been written to the output iterator, and the
  vector \<^verbatim>\<open>way_ids\<close>. The messages to \<^verbatim>\<open>vout\<close> do not influence either and are left out.
\<close>

record pass1_state =
  p1_out :: "Relation list"
  p1_way_ids :: "object_id_type list"

text \<open>The inner loop over \<^verbatim>\<open>relation.members()\<close> (lines 301-305).\<close>

fun push_way_members :: "RelationMember list \<Rightarrow> object_id_type list \<Rightarrow> object_id_type list" where
  "push_way_members [] ids = ids"
| "push_way_members (rm # rms) ids =
     push_way_members rms (if rm_type rm = item_way then ids @ [rm_ref rm] else ids)"

text \<open>The body of the loop over the relations (lines 291-306).\<close>

definition pass1_step :: "config \<Rightarrow> Relation \<Rightarrow> pass1_state \<Rightarrow> pass1_state" where
  "pass1_step cfg r st =
     (if relation_id r \<in> noborder cfg then st
      else
        let add_anyway = (relation_id r \<in> yesborder cfg) in
        if add_anyway \<or> has_tag (relation_tags r) ''boundary'' ''administrative''
        then \<lparr>p1_out = p1_out st @ [r],
              p1_way_ids = push_way_members (relation_members r) (p1_way_ids st)\<rparr>
        else st)"

fun pass1_loop :: "config \<Rightarrow> Relation list \<Rightarrow> pass1_state \<Rightarrow> pass1_state" where
  "pass1_loop cfg [] st = st"
| "pass1_loop cfg (r # rs) st = pass1_loop cfg rs (pass1_step cfg r st)"

definition pass1 :: "config \<Rightarrow> Relation list \<Rightarrow> pass1_state" where
  "pass1 cfg rels = pass1_loop cfg rels \<lparr>p1_out = [], p1_way_ids = []\<rparr>"

section \<open>Config Ingestor: \<^verbatim>\<open>jsonize\<close>\<close>

text \<open>
  Modelled from the spec: \<^verbatim>\<open>json.hpp\<close> (the JSON library behind \<^verbatim>\<open>nlohmann::json\<close>) is
  not under src/. The override document is a structured document of arrays, objects,
  integers, booleans and strings. An object is a \<^verbatim>\<open>std::map\<close> from field names to values:
  the association list holds its fields in iteration order. \<open>JNumber n\<close> is a number that
  \<^verbatim>\<open>get<long>()\<close> reads as \<open>n\<close>.
\<close>

datatype json =
    JNull
  | JBool bool
  | JNumber int
  | JString string
  | JArray "json list"
  | JObject "(string \<times> json) list"

text \<open>
  Modelled from the spec: the exceptions of \<^verbatim>\<open>json.hpp\<close>, all derived from
  \<^verbatim>\<open>std::exception\<close>: a document that cannot be read or parsed, and a value of
  the wrong type for the access made.
\<close>

datatype json_exception = parse_error | type_error

text \<open>
  Modelled from the spec: \<^verbatim>\<open>jout["key"]\<close> of \<^verbatim>\<open>json.hpp\<close>. A missing field reads as
  null, null is treated as an empty object, and any other value that is not an object
  raises.
\<close>

fun json_index :: "json \<Rightarrow> string \<Rightarrow> json_exception + json" where
  "json_index JNull key = Inr JNull"
| "json_index (JObject members) key =
     Inr (case map_of members key of None \<Rightarrow> JNull | Some v \<Rightarrow> v)"
| "json_index _ key = Inl type_error"

text \<open>Modelled from the spec: \<^verbatim>\<open>get<bool>()\<close> and \<^verbatim>\<open>get<long>()\<close> of \<^verbatim>\<open>json.hpp\<close>.\<close>

fun get_bool :: "json \<Rightarrow> json_exception + bool" where
  "get_bool (JBool b) = Inr b"
| "get_bool _ = Inl type_error"

fun get_long :: "json \<Rightarrow> json_exception + int" where
  "get_long (JNumber n) = Inr n"
| "get_long _ = Inl type_error"

text \<open>
  One flag of a \<^verbatim>\<open>relations\<close> entry (lines 90-91 and 92-93): when the field is present
  and true, the identifier is read and inserted. The identifier is only read then.
\<close>

definition flagged_id :: "(string \<times> json) list \<Rightarrow> string \<Rightarrow> json \<Rightarrow> json_exception + int option" where
  "flagged_id members flag osm_id =
     (case map_of members flag of
        None \<Rightarrow> Inr None
      | Some f \<Rightarrow>
          (case get_bool f of
             Inl e \<Rightarrow> Inl e
           | Inr b \<Rightarrow>
               if b then (case get_long osm_id of Inl e \<Rightarrow> Inl e | Inr i \<Rightarrow> Inr (Some i))
               else Inr None))"

text \<open>The body of the loop over the \<^verbatim>\<open>relations\<close> array (lines 87-93).\<close>

fun relations_entry :: "json \<Rightarrow> config \<Rightarrow> json_exception + config" where
  "relations_entry (JObject members) cfg =
     (case map_of members ''osm_id'' of
        None \<Rightarrow> Inr cfg
      | Some osm_id \<Rightarrow>
          (case flagged_id members ''whitelist'' osm_id of
             Inl e \<Rightarrow> Inl e
           | Inr wt \<Rightarrow>
               let cfg1 = (case wt of None \<Rightarrow> cfg
                           | Some i \<Rightarrow> cfg\<lparr>yesborder := insert i (yesborder cfg)\<rparr>) in
               (case flagged_id members ''blacklist'' osm_id of
                  Inl e \<Rightarrow> Inl e
                | Inr bk \<Rightarrow>
                    Inr (case bk of None \<Rightarrow> cfg1
                         | Some i \<Rightarrow> cfg1\<lparr>noborder := insert i (noborder cfg1)\<rparr>))))"
| "relations_entry _ cfg = Inr cfg"

fun relations_loop :: "json list \<Rightarrow> config \<Rightarrow> json_exception + config" where
  "relations_loop [] cfg = Inr cfg"
| "relations_loop (it # its) cfg =
     (case relations_entry it cfg of Inl e \<Rightarrow> Inl e | Inr cfg' \<Rightarrow> relations_loop its cfg')"

text \<open>The inner loop over the fields of a \<^verbatim>\<open>ways\<close> entry (lines 104-107).\<close>

fun fields_loop :: "(string \<times> json) list \<Rightarrow> strmap \<Rightarrow> strmap" where
  "fields_loop [] smap = smap"
| "fields_loop ((key, jt) # members) smap =
     fields_loop members
       (if key \<noteq> ''osm_id''
        then (case jt of JString s \<Rightarrow> strmap_set key s smap | _ \<Rightarrow> smap)
        else smap)"

text \<open>The body of the loop over the \<^verbatim>\<open>ways\<close> array (lines 99-108).\<close>

fun ways_entry :: "json \<Rightarrow> config \<Rightarrow> json_exception + config" where
  "ways_entry (JObject members) cfg =
     (case map_of members ''osm_id'' of
        None \<Rightarrow> Inr cfg
      | Some osm_id \<Rightarrow>
          let smap = fields_loop members [] in
          (case get_long osm_id of
             Inl e \<Rightarrow> Inl e
           | Inr i \<Rightarrow> Inr (cfg\<lparr>waymap := (waymap cfg)(i \<mapsto> smap)\<rparr>)))"
| "ways_entry _ cfg = Inr cfg"

fun ways_loop :: "json list \<Rightarrow> config \<Rightarrow> json_exception + config" where
  "ways_loop [] cfg = Inr cfg"
| "ways_loop (it # its) cfg =
     (case ways_entry it cfg of Inl e \<Rightarrow> Inl e | Inr cfg' \<Rightarrow> ways_loop its cfg')"

text \<open>
  The \<^verbatim>\<open>try\<close> block (lines 79-111). The argument is what reading and parsing the file
  gives: \<open>None\<close> when the file is unreadable or malformed, where \<^verbatim>\<open>i >> jout\<close> raises.
\<close>

definition jsonize_try :: "json option \<Rightarrow> config \<Rightarrow> json_exception + config" where
  "jsonize_try inp cfg =
     (case inp of
        None \<Rightarrow> Inl parse_error
      | Some jout \<Rightarrow>
          (case json_index jout ''relations'' of
             Inl e \<Rightarrow> Inl e
           | Inr ro \<Rightarrow>
               (case (case ro of JArray its \<Rightarrow> relations_loop its cfg | _ \<Rightarrow> Inr cfg) of
                  Inl e \<Rightarrow> Inl e
                | Inr cfg1 \<Rightarrow>
                    (case json_index jout ''ways'' of
                       Inl e \<Rightarrow> Inl e
                     | Inr wo \<Rightarrow>
                         (case wo of JArray its \<Rightarrow> ways_loop its cfg1 | _ \<Rightarrow> Inr cfg1)))))"

text \<open>
  \<^verbatim>\<open>jsonize\<close> with its \<^verbatim>\<open>catch\<close> block (lines 114-119): the three containers are passed
  by reference, so the function maps their state before the call to the returned flag
  and their state after it.
\<close>

definition jsonize :: "json option \<Rightarrow> config \<Rightarrow> bool \<times> config" where
  "jsonize inp cfg =
     (case jsonize_try inp cfg of
        Inl e \<Rightarrow> (False, \<lparr>waymap = Map.empty, yesborder = {}, noborder = {}\<rparr>)
      | Inr cfg' \<Rightarrow> (True, cfg'))"

section \<open>Entity Rewriter: \<^verbatim>\<open>RewriteHandler\<close>\<close>

text \<open>
  \<^verbatim>\<open>TagListBuilder::add_tag\<close> of libosmium appends one key/value pair to the tag list
  under construction.
\<close>

definition add_tag :: "TagList \<Rightarrow> string \<times> string \<Rightarrow> TagList" where
  "add_tag builder tag = builder @ [tag]"

text \<open>\<^verbatim>\<open>copy_tags\<close>, "copy existing tags" (lines 127-131).\<close>

definition copy_tags :: "TagList \<Rightarrow> TagList" where
  "copy_tags tags = foldl add_tag [] tags"

text \<open>\<^verbatim>\<open>copy_tags\<close>, "copy existing and overwrite with supplied" (lines 134-139).\<close>

definition copy_tags_tagmap :: "TagList \<Rightarrow> strmap \<Rightarrow> TagList" where
  "copy_tags_tagmap tags tagmap = foldl add_tag (foldl add_tag [] tags) tagmap"

text \<open>
  The two way handlers (lines 157-166 and 169-178) build a new way in \<^verbatim>\<open>m_buffer\<close> and
  commit it; the buffer is the list of entities committed so far.
\<close>

definition handler_way :: "entity list \<Rightarrow> Way \<Rightarrow> entity list" where
  "handler_way m_buffer w =
     m_buffer @ [EWay \<lparr>way_id = way_id w, way_tags = copy_tags (way_tags w),
                       way_nodes = way_nodes w\<rparr>]"

definition handler_way_changed :: "entity list \<Rightarrow> Way \<Rightarrow> strmap \<Rightarrow> entity list" where
  "handler_way_changed m_buffer w tagmap =
     m_buffer @ [EWay \<lparr>way_id = way_id w, way_tags = copy_tags_tagmap (way_tags w) tagmap,
                       way_nodes = way_nodes w\<rparr>]"

section \<open>The identifier vectors and their iterators\<close>

text \<open>
  \<^verbatim>\<open>way_ids\<close> and \<^verbatim>\<open>node_ids\<close> are \<^verbatim>\<open>std::vector\<close>s; the iterators \<^verbatim>\<open>first\<close> and \<^verbatim>\<open>last\<close>
  are positions in the vector. \<^verbatim>\<open>*first\<close> reads the element at the position. Every
  position below the size of the vector holds an element (also the positions from
  \<^verbatim>\<open>last\<close> on, which \<^verbatim>\<open>std::unique\<close> leaves in the vector); the position one past the
  end holds none, and reading it is undefined behaviour.
\<close>

datatype error = DerefPastEnd

definition deref :: "object_id_type list \<Rightarrow> nat \<Rightarrow> error + object_id_type" where
  "deref v i = (if i < length v then Inr (v ! i) else Inl DerefPastEnd)"

text \<open>
  \<^verbatim>\<open>std::unique(v.begin(), v.end())\<close>, the algorithm of the C++ standard library: it
  moves the first element of every run of equal elements to the front, in order, and
  returns the position after the last one moved. The vector keeps its size. The loop is
  \<^verbatim>\<open>while (++first != last) if (!(*result == *first) && ++result != first) *result = *first;\<close>
  and \<open>unique_loop\<close> takes \<open>first\<close> already incremented.
\<close>

function unique_loop :: "object_id_type list \<Rightarrow> nat \<Rightarrow> nat \<Rightarrow> object_id_type list \<times> nat" where
  "unique_loop v result first =
     (if first < length v then
        (if v ! result \<noteq> v ! first then
           (if result + 1 \<noteq> first
            then unique_loop (v[result + 1 := v ! first]) (result + 1) (first + 1)
            else unique_loop v (result + 1) (first + 1))
         else unique_loop v result (first + 1))
      else (v, result + 1))"
  by pat_completeness auto
termination
  by (relation "measure (\<lambda>(v, result, first). length v - first)") auto

declare unique_loop.simps [simp del]

definition std_unique :: "object_id_type list \<Rightarrow> object_id_type list \<times> nat" where
  "std_unique v = (if v = [] then (v, 0) else unique_loop v 0 1)"

text \<open>
  The target list of a pass: the vector after \<^verbatim>\<open>std::sort\<close> and \<^verbatim>\<open>std::unique\<close>, with the
  position \<^verbatim>\<open>last\<close> that \<^verbatim>\<open>std::unique\<close> returned (lines 312 and 322, lines 350-351).
\<close>

definition prepare_ids :: "object_id_type list \<Rightarrow> object_id_type list \<times> nat" where
  "prepare_ids ids = std_unique (sort ids)"

text \<open>
  The cursor advance \<^verbatim>\<open>while (*first < id && first != last) ++first;\<close> (lines 326-328
  and 361-363). The left operand of \<^verbatim>\<open>&&\<close> is evaluated first: the element is read before
  the position is compared with \<^verbatim>\<open>last\<close>.
\<close>

function advance :: "object_id_type list \<Rightarrow> nat \<Rightarrow> object_id_type \<Rightarrow> nat \<Rightarrow> error + nat" where
  "advance v last_it ident first =
     (case deref v first of
        Inl e \<Rightarrow> Inl e
      | Inr x \<Rightarrow> if x < ident \<and> first \<noteq> last_it then advance v last_it ident (first + 1)
                 else Inr first)"
  by pat_completeness auto
termination
  by (relation "measure (\<lambda>(v, last_it, ident, first). length v - first)")
     (auto simp: deref_def split: if_splits)

declare advance.simps [simp del]

section \<open>Pass 2: ways\<close>

record pass2_state =
  p2_first :: nat
  p2_buffer :: "entity list"
  p2_node_ids :: "object_id_type list"

text \<open>The inner loop over \<^verbatim>\<open>way.nodes()\<close> (lines 337-339).\<close>

fun push_node_refs :: "NodeRef list \<Rightarrow> object_id_type list \<Rightarrow> object_id_type list" where
  "push_node_refs [] ids = ids"
| "push_node_refs (nr # nrs) ids = push_node_refs nrs (ids @ [nr_ref nr])"

text \<open>The body of the loop over the ways (lines 325-343).\<close>

definition pass2_step ::
  "object_id_type list \<Rightarrow> nat \<Rightarrow> idmap \<Rightarrow> Way \<Rightarrow> pass2_state \<Rightarrow> error + pass2_state" where
  "pass2_step v last_it wmap w st =
     (case advance v last_it (way_id w) (p2_first st) of
        Inl e \<Rightarrow> Inl e
      | Inr first \<Rightarrow>
          (case deref v first of
             Inl e \<Rightarrow> Inl e
           | Inr x \<Rightarrow>
               if way_id w = x then
                 Inr \<lparr>p2_first = (if first \<noteq> last_it then first + 1 else first),
                      p2_buffer = (case wmap (way_id w) of
                                     None \<Rightarrow> handler_way (p2_buffer st) w
                                   | Some tagmap \<Rightarrow> handler_way_changed (p2_buffer st) w tagmap),
                      p2_node_ids = push_node_refs (way_nodes w) (p2_node_ids st)\<rparr>
               else Inr (st\<lparr>p2_first := first\<rparr>)))"

fun pass2_loop ::
  "object_id_type list \<Rightarrow> nat \<Rightarrow> idmap \<Rightarrow> Way list \<Rightarrow> pass2_state \<Rightarrow> error + pass2_state" where
  "pass2_loop v last_it wmap [] st = Inr st"
| "pass2_loop v last_it wmap (w # ws) st =
     (case pass2_step v last_it wmap w st of
        Inl e \<Rightarrow> Inl e
      | Inr st' \<Rightarrow> pass2_loop v last_it wmap ws st')"

definition pass2 ::
  "object_id_type list \<Rightarrow> nat \<Rightarrow> idmap \<Rightarrow> Way list \<Rightarrow> error + pass2_state" where
  "pass2 v last_it wmap ways =
     pass2_loop v last_it wmap ways \<lparr>p2_first = 0, p2_buffer = [], p2_node_ids = []\<rparr>"

section \<open>Pass 3: nodes\<close>

text \<open>
  The predicate passed to \<^verbatim>\<open>std::copy_if\<close> (lines 360-371). It captures \<^verbatim>\<open>first\<close> by
  reference: it takes the cursor and returns its verdict with the new cursor.
\<close>

definition node_pred ::
  "object_id_type list \<Rightarrow> nat \<Rightarrow> Node \<Rightarrow> nat \<Rightarrow> error + (bool \<times> nat)" where
  "node_pred v last_it n first0 =
     (case advance v last_it (node_id n) first0 of
        Inl e \<Rightarrow> Inl e
      | Inr first \<Rightarrow>
          (case deref v first of
             Inl e \<Rightarrow> Inl e
           | Inr x \<Rightarrow>
               if node_id n = x then Inr (True, (if first \<noteq> last_it then first + 1 else first))
               else Inr (False, first)))"

text \<open>\<^verbatim>\<open>std::copy_if\<close> over the nodes into the output iterator.\<close>

fun copy_if_nodes ::
  "object_id_type list \<Rightarrow> nat \<Rightarrow> Node list \<Rightarrow> nat \<Rightarrow> Node list \<Rightarrow> error + Node list" where
  "copy_if_nodes v last_it [] first out = Inr out"
| "copy_if_nodes v last_it (n # ns) first out =
     (case node_pred v last_it n first of
        Inl e \<Rightarrow> Inl e
      | Inr (sel, first') \<Rightarrow> copy_if_nodes v last_it ns first' (if sel then out @ [n] else out))"

definition pass3 :: "object_id_type list \<Rightarrow> nat \<Rightarrow> Node list \<Rightarrow> error + Node list" where
  "pass3 v last_it nodes = copy_if_nodes v last_it nodes 0 []"

section \<open>Pipeline Driver: \<^verbatim>\<open>main\<close>\<close>

text \<open>What the three readers deliver from the input file, one entity kind each.\<close>

record dataset =
  ds_relations :: "Relation list"
  ds_ways :: "Way list"
  ds_nodes :: "Node list"

text \<open>
  The three passes (lines 281-375). The writer receives the relations of pass 1 through
  the output iterator, then the buffer of pass 2, then the nodes of pass 3.
\<close>

definition run_passes :: "config \<Rightarrow> dataset \<Rightarrow> error + entity list" where
  "run_passes cfg ds =
     (let st1 = pass1 cfg (ds_relations ds);
          (way_ids, last_it) = prepare_ids (p1_way_ids st1)
      in case pass2 way_ids last_it (waymap cfg) (ds_ways ds) of
           Inl e \<Rightarrow> Inl e
         | Inr st2 \<Rightarrow>
             (let (node_ids, last2) = prepare_ids (p2_node_ids st2)
              in case pass3 node_ids last2 (ds_nodes ds) of
                   Inl e \<Rightarrow> Inl e
                 | Inr nodes \<Rightarrow>
                     Inr (map ERelation (p1_out st1) @ p2_buffer st2 @ map ENode nodes)))"

text \<open>The header of the output file (lines 268-270).\<close>

record Box =
  box_min_lon :: real
  box_min_lat :: real
  box_max_lon :: real
  box_max_lat :: real

record Header =
  generator :: string
  boxes :: "Box list"

definition header :: Header where
  "header = \<lparr>generator = ''osmborder_filter'',
             boxes = [\<lparr>box_min_lon = -180, box_min_lat = -90,
                       box_max_lon = 180, box_max_lat = 90\<rparr>]\<rparr>"

text \<open>
  Modelled from the spec: \<^verbatim>\<open>return_codes.hpp\<close> is not under src/; the three outcomes
  success, command-line usage error and fatal runtime error have three distinct exit
  codes.
\<close>

datatype return_code = return_code_ok | return_code_cmdline | return_code_fatal

text \<open>
  The command line as \<^verbatim>\<open>getopt_long\<close> hands it over, one option at a time; the argument
  of \<^verbatim>\<open>-c\<close> stands for what reading and parsing the named file gives. For an option
  that it does not recognise, or whose argument is missing, \<^verbatim>\<open>getopt_long\<close> writes a
  message of its own to standard error and returns \<^verbatim>\<open>'?'\<close>: \<open>Opt_unknown\<close> carries that
  message.
\<close>

datatype cmd_option =
    Opt_h
  | Opt_o string
  | Opt_v
  | Opt_V
  | Opt_c "json option"
  | Opt_unknown string

record options =
  output_filename :: string
  verbose :: bool
  opt_config :: config
  no_json_err :: bool

text \<open>
  The option loop (lines 215-246); \<open>Inl\<close> is a call of \<^verbatim>\<open>std::exit\<close>, with what standard
  error holds then. The help and version texts go to \<^verbatim>\<open>std::cout\<close>.
\<close>

fun getopt_loop ::
  "cmd_option list \<Rightarrow> options \<Rightarrow> (return_code \<times> string list) + options" where
  "getopt_loop [] opts = Inr opts"
| "getopt_loop (Opt_h # cs) opts = Inl (return_code_ok, [])"
| "getopt_loop (Opt_o optarg # cs) opts = getopt_loop cs (opts\<lparr>output_filename := optarg\<rparr>)"
| "getopt_loop (Opt_v # cs) opts = getopt_loop cs (opts\<lparr>verbose := True\<rparr>)"
| "getopt_loop (Opt_c optarg # cs) opts =
     (case jsonize optarg (opt_config opts) of
        (ok, cfg) \<Rightarrow> getopt_loop cs (opts\<lparr>opt_config := cfg, no_json_err := ok\<rparr>))"
| "getopt_loop (Opt_V # cs) opts = Inl (return_code_ok, [])"
| "getopt_loop (Opt_unknown msg # cs) opts = Inl (return_code_fatal, [msg])"

text \<open>
  How a run ends: a call of \<^verbatim>\<open>std::exit\<close>, the end of \<^verbatim>\<open>main\<close> (exit status 0), or
  undefined behaviour.
\<close>

datatype status = Exited return_code | Returned | Undefined error

record main_result =
  status :: status
  stderr :: "string list"
  written :: "(Header \<times> entity list) option"

text \<open>
  \<^verbatim>\<open>main\<close> (lines 194-388). Its inputs: the options, the number of arguments left after
  them, and what the readers and the writer do: \<open>Inl what\<close> when one of them raises
  \<^verbatim>\<open>osmium::io_error\<close>, else the dataset read. \<open>written\<close> is the dataset in the output file
  once the writer is closed. Output to \<^verbatim>\<open>std::cout\<close> and \<^verbatim>\<open>vout\<close> is left out.
\<close>

definition main :: "cmd_option list \<Rightarrow> nat \<Rightarrow> string + dataset \<Rightarrow> main_result" where
  "main cmdline nargs io =
     (case getopt_loop cmdline
             \<lparr>output_filename = [], verbose = False,
              opt_config = \<lparr>waymap = Map.empty, yesborder = {}, noborder = {}\<rparr>,
              no_json_err = True\<rparr> of
        Inl (rc, err) \<Rightarrow> \<lparr>status = Exited rc, stderr = err, written = None\<rparr>
      | Inr opts \<Rightarrow>
          let err = (if \<not> no_json_err opts
                     then [''changefile gave error, not using\<newline>''] else [])
          in
          if output_filename opts = [] then
            \<lparr>status = Exited return_code_cmdline,
             stderr = err @ [''Missing -o/--output=OSMFILE option\<newline>''], written = None\<rparr>
          else if nargs \<noteq> 1 then
            \<lparr>status = Exited return_code_cmdline,
             stderr = err @ [''Usage: osmborder_filter [OPTIONS] OSMFILE\<newline>''],
             written = None\<rparr>
          else
            (case io of
               Inl what \<Rightarrow>
                 \<lparr>status = Exited return_code_fatal,
                  stderr = err @ [''io error: '' @ what @ [CHR 0x27, CHR 0x0A]], written = None\<rparr>
             | Inr ds \<Rightarrow>
                 (case run_passes (opt_config opts) ds of
                    Inl e \<Rightarrow> \<lparr>status = Undefined e, stderr = err, written = None\<rparr>
                  | Inr entities \<Rightarrow>
                      \<lparr>status = Returned, stderr = err, written = Some (header, entities)\<rparr>)))"

section \<open>Properties of pass 1\<close>

lemma push_way_members_eq:
  "push_way_members rms ids = ids @ map rm_ref (filter (\<lambda>rm. rm_type rm = item_way) rms)"
  by (induction rms arbitrary: ids) simp_all

lemma pass1_loop_eq:
  "pass1_loop cfg rels st =
     \<lparr>p1_out = p1_out st @
        filter (\<lambda>r. relation_id r \<notin> noborder cfg \<and>
                    (relation_id r \<in> yesborder cfg \<or>
                     has_tag (relation_tags r) ''boundary'' ''administrative'')) rels,
      p1_way_ids = p1_way_ids st @
        concat (map (\<lambda>r. map rm_ref (filter (\<lambda>rm. rm_type rm = item_way) (relation_members r)))
          (filter (\<lambda>r. relation_id r \<notin> noborder cfg \<and>
                    (relation_id r \<in> yesborder cfg \<or>
                     has_tag (relation_tags r) ''boundary'' ''administrative'')) rels))\<rparr>"
proof (induction rels arbitrary: st)
  case Nil
  show ?case by simp
next
  case (Cons r rs)
  show ?case
    by (simp add: Cons.IH pass1_step_def push_way_members_eq Let_def)
qed

text \<open>
  C4. Pass 1 emits a relation, and appends the identifiers of its way members to
  \<^verbatim>\<open>way_ids\<close>, exactly when its identifier is not in the deny-set and it is in the
  allow-set or tagged boundary=administrative: the output is the input stream filtered
  by that condition, and \<^verbatim>\<open>way_ids\<close> is the concatenation of the way members of the
  emitted relations. A relation whose identifier is in both sets leaves the output and
  \<^verbatim>\<open>way_ids\<close> as they were.
\<close>

theorem pass1_selects_allowed_not_denied:
  "p1_out (pass1 cfg rels) =
     filter (\<lambda>r. relation_id r \<notin> noborder cfg \<and>
                 (relation_id r \<in> yesborder cfg \<or>
                  has_tag (relation_tags r) ''boundary'' ''administrative'')) rels
   \<and> p1_way_ids (pass1 cfg rels) =
     concat (map (\<lambda>r. map rm_ref (filter (\<lambda>rm. rm_type rm = item_way) (relation_members r)))
       (p1_out (pass1 cfg rels)))
   \<and> (relation_id r \<in> yesborder cfg \<and> relation_id r \<in> noborder cfg \<longrightarrow>
        pass1_step cfg r st = st \<and> r \<notin> set (p1_out (pass1 cfg rels)))"
  by (simp add: pass1_def pass1_loop_eq pass1_step_def)

theorem pass1_selects_allowed_not_denied_witness:
  "p1_out (pass1 \<lparr>waymap = Map.empty, yesborder = {7, 8}, noborder = {7}\<rparr>
      [\<lparr>relation_id = 7, relation_tags = [(''boundary'', ''administrative'')],
         relation_members = [\<lparr>rm_type = item_way, rm_ref = 70, rm_role = ''outer''\<rparr>]\<rparr>,
       \<lparr>relation_id = 8, relation_tags = [],
         relation_members = [\<lparr>rm_type = item_node, rm_ref = 5, rm_role = ''label''\<rparr>,
                             \<lparr>rm_type = item_way, rm_ref = 80, rm_role = ''outer''\<rparr>]\<rparr>])
   = [\<lparr>relation_id = 8, relation_tags = [],
         relation_members = [\<lparr>rm_type = item_node, rm_ref = 5, rm_role = ''label''\<rparr>,
                             \<lparr>rm_type = item_way, rm_ref = 80, rm_role = ''outer''\<rparr>]\<rparr>]
   \<and> p1_way_ids (pass1 \<lparr>waymap = Map.empty, yesborder = {7, 8}, noborder = {7}\<rparr>
      [\<lparr>relation_id = 7, relation_tags = [(''boundary'', ''administrative'')],
         relation_members = [\<lparr>rm_type = item_way, rm_ref = 70, rm_role = ''outer''\<rparr>]\<rparr>,
       \<lparr>relation_id = 8, relation_tags = [],
         relation_members = [\<lparr>rm_type = item_node, rm_ref = 5, rm_role = ''label''\<rparr>,
                             \<lparr>rm_type = item_way, rm_ref = 80, rm_role = ''outer''\<rparr>]\<rparr>])
   = [80]
   \<and> pass1_step \<lparr>waymap = Map.empty, yesborder = {7, 8}, noborder = {7}\<rparr>
       \<lparr>relation_id = 7, relation_tags = [(''boundary'', ''administrative'')],
         relation_members = [\<lparr>rm_type = item_way, rm_ref = 70, rm_role = ''outer''\<rparr>]\<rparr>
       \<lparr>p1_out = [], p1_way_ids = [1]\<rparr>
     = \<lparr>p1_out = [], p1_way_ids = [1]\<rparr>"
  using pass1_selects_allowed_not_denied
    [of "\<lparr>waymap = Map.empty, yesborder = {7, 8}, noborder = {7}\<rparr>"
        "[\<lparr>relation_id = 7, relation_tags = [(''boundary'', ''administrative'')],
           relation_members = [\<lparr>rm_type = item_way, rm_ref = 70, rm_role = ''outer''\<rparr>]\<rparr>,
          \<lparr>relation_id = 8, relation_tags = [],
           relation_members = [\<lparr>rm_type = item_node, rm_ref = 5, rm_role = ''label''\<rparr>,
                               \<lparr>rm_type = item_way, rm_ref = 80, rm_role = ''outer''\<rparr>]\<rparr>]"
        "\<lparr>relation_id = 7, relation_tags = [(''boundary'', ''administrative'')],
           relation_members = [\<lparr>rm_type = item_way, rm_ref = 70, rm_role = ''outer''\<rparr>]\<rparr>"
        "\<lparr>p1_out = [], p1_way_ids = [1]\<rparr>"]
  by (simp add: has_tag_def)

section \<open>Properties of the Config Ingestor\<close>

subsection \<open>The ordered map\<close>

lemma map_of_strmap_set: "map_of (strmap_set k v m) = (map_of m)(k \<mapsto> v)"
  by (induction m) (auto simp: fun_upd_twist)

lemma keys_strmap_set: "fst ` set (strmap_set k v m) = insert k (fst ` set m)"
  by (simp add: dom_map_of_conv_image_fst [symmetric] map_of_strmap_set)

lemma sorted_strmap_set:
  "sorted_wrt (<) (map fst m) \<Longrightarrow> sorted_wrt (<) (map fst (strmap_set k v m))"
proof (induction m)
  case Nil
  show ?case by simp
next
  case (Cons p m)
  obtain k' v' where p: "p = (k', v')" by (cases p)
  show ?case
  proof (cases "k < k'")
    case True
    with Cons.prems p show ?thesis by auto
  next
    case False
    show ?thesis
    proof (cases "k = k'")
      case True
      with Cons.prems p show ?thesis by simp
    next
      case ne: False
      with False have lt: "k' < k" by simp
      have "\<forall>x \<in> fst ` set (strmap_set k v m). k' < x"
        using Cons.prems p lt by (auto simp: keys_strmap_set)
      then show ?thesis
        using Cons.prems Cons.IH p False ne by (simp add: image_iff Ball_def)
    qed
  qed
qed

lemma sorted_fields_loop:
  "sorted_wrt (<) (map fst smap) \<Longrightarrow> sorted_wrt (<) (map fst (fields_loop flds smap))"
  by (induction flds smap rule: fields_loop.induct)
     (auto simp: sorted_strmap_set split: json.splits)

lemma fields_loop_lookup:
  "distinct (map fst flds) \<Longrightarrow>
   map_of (fields_loop flds smap) k =
     (case map_of flds k of
        Some (JString s) \<Rightarrow> if k \<noteq> ''osm_id'' then Some s else map_of smap k
      | _ \<Rightarrow> map_of smap k)"
proof (induction flds arbitrary: smap)
  case Nil
  show ?case by simp
next
  case (Cons p flds)
  obtain key jt where p: "p = (key, jt)" by (cases p)
  from Cons.prems p have d: "distinct (map fst flds)" and nk: "key \<notin> fst ` set flds"
    by auto
  from nk have none: "map_of flds key = None"
    by (simp add: map_of_eq_None_iff)
  show ?case
    using Cons.IH [OF d] none
    by (auto simp: p map_of_strmap_set split: json.splits option.splits)
qed

subsection \<open>One entry of the \<^verbatim>\<open>ways\<close> array\<close>

text \<open>
  C8. For an entry of the \<^verbatim>\<open>ways\<close> array that has an \<^verbatim>\<open>osm_id\<close> field (a number, the
  way id \<open>i\<close>), the override table afterwards maps \<open>i\<close> to the record that holds, under
  the field's name, exactly the other fields whose values are strings: a field with a
  value that is not a string, and \<^verbatim>\<open>osm_id\<close> itself, have no entry. The fields of an
  object have distinct names.
\<close>

theorem ways_entry_string_fields:
  assumes "distinct (map fst flds)" and "map_of flds ''osm_id'' = Some (JNumber i)"
  shows "\<exists>smap. ways_entry (JObject flds) cfg = Inr (cfg\<lparr>waymap := (waymap cfg)(i \<mapsto> smap)\<rparr>)
           \<and> sorted_wrt (<) (map fst smap)
           \<and> (\<forall>k. map_of smap k =
                 (case map_of flds k of
                    Some (JString s) \<Rightarrow> if k \<noteq> ''osm_id'' then Some s else None
                  | _ \<Rightarrow> None))"
proof -
  have "ways_entry (JObject flds) cfg = Inr (cfg\<lparr>waymap := (waymap cfg)(i \<mapsto> fields_loop flds [])\<rparr>)"
    using assms(2) by simp
  moreover have "sorted_wrt (<) (map fst (fields_loop flds []))"
    by (rule sorted_fields_loop) simp
  moreover have "\<forall>k. map_of (fields_loop flds []) k =
                 (case map_of flds k of
                    Some (JString s) \<Rightarrow> if k \<noteq> ''osm_id'' then Some s else None
                  | _ \<Rightarrow> None)"
    using fields_loop_lookup [OF assms(1), of "[]"]
    by (auto split: option.splits json.splits)
  ultimately show ?thesis by blast
qed

theorem ways_entry_string_fields_witness:
  "\<exists>smap. ways_entry
       (JObject [(''highway'', JString ''Z''), (''lanes'', JNumber 2),
                 (''name'', JString ''X''), (''oneway'', JBool True), (''osm_id'', JNumber 42)])
       \<lparr>waymap = Map.empty, yesborder = {}, noborder = {}\<rparr>
     = Inr \<lparr>waymap = [42 \<mapsto> smap], yesborder = {}, noborder = {}\<rparr>
     \<and> map_of smap ''highway'' = Some ''Z'' \<and> map_of smap ''name'' = Some ''X''
     \<and> map_of smap ''lanes'' = None \<and> map_of smap ''oneway'' = None
     \<and> map_of smap ''osm_id'' = None"
proof -
  let ?flds = "[(''highway'', JString ''Z''), (''lanes'', JNumber 2),
                (''name'', JString ''X''), (''oneway'', JBool True), (''osm_id'', JNumber 42)]"
  let ?c0 = "\<lparr>waymap = Map.empty, yesborder = {}, noborder = {}\<rparr>"
  have h1: "distinct (map fst ?flds)" by simp
  have h2: "map_of ?flds ''osm_id'' = Some (JNumber 42)" by simp
  from ways_entry_string_fields [OF h1 h2, of ?c0]
  obtain smap where e: "ways_entry (JObject ?flds) ?c0
         = Inr (?c0\<lparr>waymap := (waymap ?c0)(42 \<mapsto> smap)\<rparr>)"
    and m: "\<forall>k. map_of smap k =
                 (case map_of ?flds k of
                    Some (JString s) \<Rightarrow> if k \<noteq> ''osm_id'' then Some s else None
                  | _ \<Rightarrow> None)"
    by blast
  from m have "map_of smap ''highway'' = Some ''Z''" and "map_of smap ''name'' = Some ''X''"
    and "map_of smap ''lanes'' = None" and "map_of smap ''oneway'' = None"
    and "map_of smap ''osm_id'' = None"
    by simp_all
  moreover from e have "ways_entry (JObject ?flds) ?c0
     = Inr \<lparr>waymap = [42 \<mapsto> smap], yesborder = {}, noborder = {}\<rparr>"
    by simp
  ultimately show ?thesis by blast
qed

subsection \<open>Several entries for one way\<close>

lemma ways_entry_other_id:
  assumes "ways_entry it cfg = Inr cfg'"
    and "\<forall>flds. it = JObject flds \<longrightarrow> map_of flds ''osm_id'' \<noteq> Some (JNumber i)"
  shows "waymap cfg' i = waymap cfg i"
proof (cases it)
  case (JObject flds)
  show ?thesis
  proof (cases "map_of flds ''osm_id''")
    case None
    with assms(1) JObject show ?thesis by simp
  next
    case (Some osm_id)
    with assms(1) JObject obtain j where j: "get_long osm_id = Inr j"
      and c: "cfg' = cfg\<lparr>waymap := (waymap cfg)(j \<mapsto> fields_loop flds [])\<rparr>"
      by (auto simp: Let_def split: sum.splits)
    from j have "osm_id = JNumber j" by (cases osm_id) simp_all
    with assms(2) JObject Some have "j \<noteq> i" by auto
    with c show ?thesis by simp
  qed
qed (use assms(1) in auto)

lemma ways_loop_other_id:
  "ways_loop its cfg = Inr cfg' \<Longrightarrow>
   \<forall>flds. JObject flds \<in> set its \<longrightarrow> map_of flds ''osm_id'' \<noteq> Some (JNumber i) \<Longrightarrow>
   waymap cfg' i = waymap cfg i"
proof (induction its arbitrary: cfg)
  case Nil
  then show ?case by simp
next
  case (Cons it its)
  from Cons.prems(1) obtain c where c: "ways_entry it cfg = Inr c" and l: "ways_loop its c = Inr cfg'"
    by (auto split: sum.splits)
  have "waymap c i = waymap cfg i"
    using c Cons.prems(2) by (intro ways_entry_other_id) auto
  moreover have "waymap cfg' i = waymap c i"
    using l Cons.prems(2) by (intro Cons.IH) auto
  ultimately show ?case by simp
qed

lemma ways_loop_append:
  "ways_loop (xs @ ys) cfg =
     (case ways_loop xs cfg of Inl e \<Rightarrow> Inl e | Inr c \<Rightarrow> ways_loop ys c)"
  by (induction xs arbitrary: cfg) (auto split: sum.splits)

lemma ways_loop_last_entry:
  assumes "ways_loop (pre @ JObject flds # post) cfg = Inr cfg'"
    and "map_of flds ''osm_id'' = Some (JNumber i)"
    and "\<forall>flds'. JObject flds' \<in> set post \<longrightarrow> map_of flds' ''osm_id'' \<noteq> Some (JNumber i)"
  shows "waymap cfg' i = Some (fields_loop flds [])"
proof -
  from assms(1) obtain c1 where c1: "ways_loop pre cfg = Inr c1"
    and r: "ways_loop (JObject flds # post) c1 = Inr cfg'"
    by (auto simp: ways_loop_append split: sum.splits)
  from r assms(2) have
    "ways_loop post (c1\<lparr>waymap := (waymap c1)(i \<mapsto> fields_loop flds [])\<rparr>) = Inr cfg'"
    by simp
  from ways_loop_other_id [OF this assms(3)] show ?thesis by simp
qed

text \<open>
  C10. When the \<^verbatim>\<open>ways\<close> array has several entries with the same \<^verbatim>\<open>osm_id\<close>, the
  override table that \<^verbatim>\<open>jsonize\<close> returns maps the id to the string-valued fields of the
  last such entry only: whatever the entries before it hold, the record is the one built
  from the last entry alone.
\<close>

theorem jsonize_last_way_entry_wins:
  assumes "jsonize (Some jout) cfg = (True, cfg')"
    and "json_index jout ''ways'' = Inr (JArray (pre @ JObject flds # post))"
    and "distinct (map fst flds)"
    and "map_of flds ''osm_id'' = Some (JNumber i)"
    and "\<forall>flds'. JObject flds' \<in> set post \<longrightarrow> map_of flds' ''osm_id'' \<noteq> Some (JNumber i)"
  shows "\<exists>smap. waymap cfg' i = Some smap
           \<and> sorted_wrt (<) (map fst smap)
           \<and> (\<forall>k. map_of smap k =
                 (case map_of flds k of
                    Some (JString s) \<Rightarrow> if k \<noteq> ''osm_id'' then Some s else None
                  | _ \<Rightarrow> None))"
proof -
  from assms(1) have t: "jsonize_try (Some jout) cfg = Inr cfg'"
    by (auto simp: jsonize_def split: sum.splits)
  with assms(2) obtain c1 where "ways_loop (pre @ JObject flds # post) c1 = Inr cfg'"
    by (auto simp: jsonize_try_def split: sum.splits)
  from ways_loop_last_entry [OF this assms(4) assms(5)]
  have "waymap cfg' i = Some (fields_loop flds [])" .
  moreover have "sorted_wrt (<) (map fst (fields_loop flds []))"
    by (rule sorted_fields_loop) simp
  moreover have "\<forall>k. map_of (fields_loop flds []) k =
                 (case map_of flds k of
                    Some (JString s) \<Rightarrow> if k \<noteq> ''osm_id'' then Some s else None
                  | _ \<Rightarrow> None)"
    using fields_loop_lookup [OF assms(3), of "[]"]
    by (auto split: option.splits json.splits)
  ultimately show ?thesis by blast
qed

theorem jsonize_last_way_entry_wins_witness:
  "waymap (snd (jsonize
      (Some (JObject [(''ways'', JArray
         [JObject [(''name'', JString ''A''), (''osm_id'', JNumber 42), (''ref'', JString ''R'')],
          JObject [(''lanes'', JNumber 2), (''name'', JString ''B''), (''osm_id'', JNumber 42)],
          JObject [(''name'', JString ''C''), (''osm_id'', JNumber 43)]])]))
      \<lparr>waymap = Map.empty, yesborder = {}, noborder = {}\<rparr>)) 42
   = Some [(''name'', ''B'')]
   \<and> (\<exists>smap. waymap (snd (jsonize
      (Some (JObject [(''ways'', JArray
         [JObject [(''name'', JString ''A''), (''osm_id'', JNumber 42), (''ref'', JString ''R'')],
          JObject [(''lanes'', JNumber 2), (''name'', JString ''B''), (''osm_id'', JNumber 42)],
          JObject [(''name'', JString ''C''), (''osm_id'', JNumber 43)]])]))
      \<lparr>waymap = Map.empty, yesborder = {}, noborder = {}\<rparr>)) 42 = Some smap
       \<and> map_of smap ''name'' = Some ''B'' \<and> map_of smap ''ref'' = None)"
proof -
  let ?e1 = "JObject [(''name'', JString ''A''), (''osm_id'', JNumber 42), (''ref'', JString ''R'')]"
  let ?f2 = "[(''lanes'', JNumber 2), (''name'', JString ''B''), (''osm_id'', JNumber 42)]"
  let ?e3 = "JObject [(''name'', JString ''C''), (''osm_id'', JNumber 43)]"
  let ?doc = "JObject [(''ways'', JArray [?e1, JObject ?f2, ?e3])]"
  let ?c0 = "\<lparr>waymap = Map.empty, yesborder = {}, noborder = {}\<rparr>"
  have h1: "jsonize (Some ?doc) ?c0 = (True, snd (jsonize (Some ?doc) ?c0))"
    by (simp add: jsonize_def jsonize_try_def)
  have h2: "json_index ?doc ''ways'' = Inr (JArray ([?e1] @ JObject ?f2 # [?e3]))"
    by simp
  have h3: "distinct (map fst ?f2)" by simp
  have h4: "map_of ?f2 ''osm_id'' = Some (JNumber 42)" by simp
  have h5: "\<forall>flds'. JObject flds' \<in> set [?e3] \<longrightarrow> map_of flds' ''osm_id'' \<noteq> Some (JNumber 42)"
    by simp
  from jsonize_last_way_entry_wins [OF h1 h2 h3 h4 h5]
  obtain smap where s: "waymap (snd (jsonize (Some ?doc) ?c0)) 42 = Some smap"
    and m: "\<forall>k. map_of smap k =
                 (case map_of ?f2 k of
                    Some (JString s) \<Rightarrow> if k \<noteq> ''osm_id'' then Some s else None
                  | _ \<Rightarrow> None)"
    by blast
  from m have "map_of smap ''name'' = Some ''B''" and "map_of smap ''ref'' = None"
    by simp_all
  with s have "\<exists>smap. waymap (snd (jsonize (Some ?doc) ?c0)) 42 = Some smap
       \<and> map_of smap ''name'' = Some ''B'' \<and> map_of smap ''ref'' = None"
    by blast
  moreover have "waymap (snd (jsonize (Some ?doc) ?c0)) 42 = Some [(''name'', ''B'')]"
    by (simp add: jsonize_def jsonize_try_def)
  ultimately show ?thesis by blast
qed

subsection \<open>Exceptions\<close>

text \<open>Whether the \<^verbatim>\<open>try\<close> block raises depends on the document alone.\<close>

lemma relations_entry_fails_for_all:
  "relations_entry it cfg = Inl e \<Longrightarrow> relations_entry it cfg2 = Inl e"
  by (cases it) (auto simp: Let_def split: option.splits sum.splits)

lemma relations_entry_succeeds_for_all:
  "relations_entry it cfg = Inr c \<Longrightarrow> \<exists>c2. relations_entry it cfg2 = Inr c2"
  by (cases it) (auto simp: Let_def split: option.splits sum.splits)

lemma relations_loop_fails_for_all:
  "relations_loop its cfg = Inl e \<Longrightarrow> relations_loop its cfg2 = Inl e"
proof (induction its arbitrary: cfg cfg2)
  case Nil
  then show ?case by simp
next
  case (Cons it its)
  show ?case
  proof (cases "relations_entry it cfg")
    case (Inl e')
    with Cons.prems have "e' = e" by simp
    with Inl show ?thesis by (simp add: relations_entry_fails_for_all [of it cfg e cfg2])
  next
    case (Inr c)
    then obtain c2 where c2: "relations_entry it cfg2 = Inr c2"
      using relations_entry_succeeds_for_all by blast
    from Cons.prems Inr have "relations_loop its c = Inl e" by simp
    then have "relations_loop its c2 = Inl e" by (rule Cons.IH)
    with c2 show ?thesis by simp
  qed
qed

lemma relations_loop_succeeds_for_all:
  "relations_loop its cfg = Inr c \<Longrightarrow> \<exists>c2. relations_loop its cfg2 = Inr c2"
proof (induction its arbitrary: cfg cfg2)
  case Nil
  then show ?case by simp
next
  case (Cons it its)
  from Cons.prems obtain c1 where c1: "relations_entry it cfg = Inr c1"
    and l: "relations_loop its c1 = Inr c"
    by (auto split: sum.splits)
  from c1 obtain d1 where d1: "relations_entry it cfg2 = Inr d1"
    using relations_entry_succeeds_for_all by blast
  from Cons.IH [OF l, of d1] d1 show ?case by simp
qed

lemma ways_entry_fails_for_all:
  "ways_entry it cfg = Inl e \<Longrightarrow> ways_entry it cfg2 = Inl e"
  by (cases it) (auto simp: Let_def split: option.splits sum.splits)

lemma ways_entry_succeeds_for_all:
  "ways_entry it cfg = Inr c \<Longrightarrow> \<exists>c2. ways_entry it cfg2 = Inr c2"
  by (cases it) (auto simp: Let_def split: option.splits sum.splits)

lemma ways_loop_fails_for_all:
  "ways_loop its cfg = Inl e \<Longrightarrow> ways_loop its cfg2 = Inl e"
proof (induction its arbitrary: cfg cfg2)
  case Nil
  then show ?case by simp
next
  case (Cons it its)
  show ?case
  proof (cases "ways_entry it cfg")
    case (Inl e')
    with Cons.prems have "e' = e" by simp
    with Inl show ?thesis by (simp add: ways_entry_fails_for_all [of it cfg e cfg2])
  next
    case (Inr c)
    then obtain c2 where c2: "ways_entry it cfg2 = Inr c2"
      using ways_entry_succeeds_for_all by blast
    from Cons.prems Inr have "ways_loop its c = Inl e" by simp
    then have "ways_loop its c2 = Inl e" by (rule Cons.IH)
    with c2 show ?thesis by simp
  qed
qed

lemma jsonize_try_fails_for_all:
  assumes "jsonize_try inp cfg = Inl e"
  shows "jsonize_try inp cfg2 = Inl e"
proof (cases inp)
  case None
  with assms show ?thesis by (simp add: jsonize_try_def)
next
  case (Some jout)
  show ?thesis
  proof (cases "json_index jout ''relations''")
    case (Inl e')
    with assms Some show ?thesis by (simp add: jsonize_try_def)
  next
    case (Inr ro)
    let ?R = "\<lambda>c. (case ro of JArray its \<Rightarrow> relations_loop its c | _ \<Rightarrow> Inr c)"
    show ?thesis
    proof (cases "?R cfg")
      case (Inl e')
      with assms Some Inr have "e' = e" by (simp add: jsonize_try_def)
      with Inl have "?R cfg2 = Inl e"
        by (cases ro) (auto dest: relations_loop_fails_for_all)
      with Some Inr show ?thesis by (simp add: jsonize_try_def)
    next
      case r1: (Inr c1)
      then obtain d1 where d1: "?R cfg2 = Inr d1"
        by (cases ro) (auto dest: relations_loop_succeeds_for_all)
      show ?thesis
      proof (cases "json_index jout ''ways''")
        case (Inl e')
        with assms Some Inr r1 d1 show ?thesis by (simp add: jsonize_try_def)
      next
        case w: (Inr wo)
        from assms Some Inr r1 w
        have "(case wo of JArray its \<Rightarrow> ways_loop its c1 | _ \<Rightarrow> Inr c1) = Inl e"
          by (simp add: jsonize_try_def)
        then have "(case wo of JArray its \<Rightarrow> ways_loop its d1 | _ \<Rightarrow> Inr d1) = Inl e"
          by (cases wo) (auto dest: ways_loop_fails_for_all)
        with Some Inr d1 w show ?thesis by (simp add: jsonize_try_def)
      qed
    qed
  qed
qed

text \<open>
  C5. When reading the override document raises an exception (a file that is unreadable
  or malformed, or a value of the wrong type), \<^verbatim>\<open>jsonize\<close> returns false and leaves the
  allow-set, the deny-set and the override table empty, whatever they held before; and
  \<^verbatim>\<open>main\<close> does not exit: it writes the warning to standard error and runs the three
  passes with the empty configuration.
\<close>

theorem jsonize_exception_clears_and_run_continues:
  assumes "jsonize_try inp cfg = Inl e" and "fname \<noteq> []"
  shows "jsonize inp cfg = (False, \<lparr>waymap = Map.empty, yesborder = {}, noborder = {}\<rparr>)
       \<and> main [Opt_c inp, Opt_o fname] 1 (Inr ds) =
           (case run_passes \<lparr>waymap = Map.empty, yesborder = {}, noborder = {}\<rparr> ds of
              Inl u \<Rightarrow> \<lparr>status = Undefined u,
                         stderr = [''changefile gave error, not using\<newline>''],
                         written = None\<rparr>
            | Inr entities \<Rightarrow>
                \<lparr>status = Returned,
                 stderr = [''changefile gave error, not using\<newline>''],
                 written = Some (header, entities)\<rparr>)"
proof -
  let ?E = "\<lparr>waymap = Map.empty, yesborder = {}, noborder = {}\<rparr>"
  from assms(1) have a: "jsonize inp cfg = (False, ?E)"
    by (simp add: jsonize_def)
  from assms(1) have "jsonize_try inp ?E = Inl e"
    by (rule jsonize_try_fails_for_all)
  then have "jsonize inp ?E = (False, ?E)"
    by (simp add: jsonize_def)
  then have "main [Opt_c inp, Opt_o fname] 1 (Inr ds) =
           (case run_passes ?E ds of
              Inl u \<Rightarrow> \<lparr>status = Undefined u,
                         stderr = [''changefile gave error, not using\<newline>''],
                         written = None\<rparr>
            | Inr entities \<Rightarrow>
                \<lparr>status = Returned,
                 stderr = [''changefile gave error, not using\<newline>''],
                 written = Some (header, entities)\<rparr>)"
    using assms(2) by (simp add: main_def split: sum.splits)
  with a show ?thesis by simp
qed

theorem jsonize_exception_clears_and_run_continues_witness:
  "jsonize
     (Some (JObject [(''relations'', JArray [JObject [(''osm_id'', JNumber 7),
                                                     (''whitelist'', JBool True)]]),
                     (''ways'', JArray [JObject [(''name'', JString ''X''),
                                                (''osm_id'', JString ''42'')]])]))
     \<lparr>waymap = [1 \<mapsto> [(''name'', ''N'')]], yesborder = {2}, noborder = {3}\<rparr>
   = (False, \<lparr>waymap = Map.empty, yesborder = {}, noborder = {}\<rparr>)
   \<and> main [Opt_c (Some (JObject [(''relations'', JArray [JObject [(''osm_id'', JNumber 7),
                                                     (''whitelist'', JBool True)]]),
                     (''ways'', JArray [JObject [(''name'', JString ''X''),
                                                (''osm_id'', JString ''42'')]])])),
           Opt_o ''out.pbf''] 1
       (Inr \<lparr>ds_relations = [\<lparr>relation_id = 7, relation_tags = [], relation_members = []\<rparr>],
             ds_ways = [], ds_nodes = []\<rparr>)
   = \<lparr>status = Returned, stderr = [''changefile gave error, not using\<newline>''],
      written = Some (header, [])\<rparr>"
proof -
  let ?doc = "Some (JObject [(''relations'', JArray [JObject [(''osm_id'', JNumber 7),
                                                     (''whitelist'', JBool True)]]),
                     (''ways'', JArray [JObject [(''name'', JString ''X''),
                                                (''osm_id'', JString ''42'')]])])"
  let ?cfg = "\<lparr>waymap = [1 \<mapsto> [(''name'', ''N'')]], yesborder = {2}, noborder = {3}\<rparr>"
  let ?ds = "\<lparr>ds_relations = [\<lparr>relation_id = 7, relation_tags = [], relation_members = []\<rparr>],
             ds_ways = [], ds_nodes = []\<rparr>"
  have h1: "jsonize_try ?doc ?cfg = Inl type_error"
    by (simp add: jsonize_try_def flagged_id_def)
  have h2: "''out.pbf'' \<noteq> []" by simp
  have r: "run_passes \<lparr>waymap = Map.empty, yesborder = {}, noborder = {}\<rparr> ?ds = Inr []"
    by (simp add: run_passes_def pass1_def pass1_step_def has_tag_def prepare_ids_def
          std_unique_def pass2_def pass3_def)
  from jsonize_exception_clears_and_run_continues [OF h1 h2, of ?ds] r
  show ?thesis by simp
qed

section \<open>Properties of the Entity Rewriter\<close>

lemma foldl_add_tag: "foldl add_tag builder tags = builder @ tags"
  by (induction tags arbitrary: builder) (simp_all add: add_tag_def)

lemma copy_tags_eq: "copy_tags tags = tags"
  by (simp add: copy_tags_def foldl_add_tag)

lemma copy_tags_tagmap_eq: "copy_tags_tagmap tags tagmap = tags @ tagmap"
  by (simp add: copy_tags_tagmap_def foldl_add_tag)

text \<open>
  C7. The way that the override handler commits has the identifier and the node
  reference list of the input way; the buffer keeps what it held. An override alters
  only the tags.
\<close>

theorem override_changes_only_tags:
  "\<exists>w'. handler_way_changed m_buffer w tagmap = m_buffer @ [EWay w']
        \<and> way_id w' = way_id w \<and> way_nodes w' = way_nodes w"
  by (simp add: handler_way_changed_def)

text \<open>
  C3, as the code has it. The claim: for a selected way with an override record, a
  colliding key is replaced, so that existing tags name=Y, highway=Z with the override
  name=X are emitted as highway=Z, name=X. The code appends the override pairs after the
  existing tags (\<open>copy_tags_tagmap_eq\<close>) and removes nothing: the emitted way carries
  name=Y, highway=Z and name=X. The run below is the whole program on that input.
\<close>

theorem override_appends_and_keeps_colliding_tag:
  "written (main [Opt_c (Some (JObject [(''ways'', JArray
                    [JObject [(''name'', JString ''X''), (''osm_id'', JNumber 42)]])])),
                  Opt_o ''out.pbf''] 1
     (Inr \<lparr>ds_relations =
             [\<lparr>relation_id = 1, relation_tags = [(''boundary'', ''administrative'')],
               relation_members = [\<lparr>rm_type = item_way, rm_ref = 42, rm_role = ''outer''\<rparr>]\<rparr>],
           ds_ways =
             [\<lparr>way_id = 42, way_tags = [(''name'', ''Y''), (''highway'', ''Z'')],
               way_nodes = [\<lparr>nr_ref = 3, nr_location = (0, 0)\<rparr>]\<rparr>],
           ds_nodes = [\<lparr>node_id = 3, node_location = (10, 20), node_tags = []\<rparr>]\<rparr>))
   = Some (header,
       [ERelation \<lparr>relation_id = 1, relation_tags = [(''boundary'', ''administrative'')],
               relation_members = [\<lparr>rm_type = item_way, rm_ref = 42, rm_role = ''outer''\<rparr>]\<rparr>,
        EWay \<lparr>way_id = 42,
              way_tags = [(''name'', ''Y''), (''highway'', ''Z''), (''name'', ''X'')],
              way_nodes = [\<lparr>nr_ref = 3, nr_location = (0, 0)\<rparr>]\<rparr>,
        ENode \<lparr>node_id = 3, node_location = (10, 20), node_tags = []\<rparr>])"
  by (simp add: main_def jsonize_def jsonize_try_def run_passes_def pass1_def pass1_step_def
        has_tag_def prepare_ids_def std_unique_def unique_loop.simps pass2_def pass2_step_def
        advance.simps deref_def handler_way_changed_def copy_tags_tagmap_def add_tag_def
        pass3_def node_pred_def)

section \<open>Properties of the identifier vectors\<close>

lemma unique_loop_correct:
  "result < first \<Longrightarrow> first \<le> length v \<Longrightarrow>
   (case unique_loop v result first of
      (v', l) \<Rightarrow> length v' = length v \<and> l \<le> length v
        \<and> take l v' = take result v @ remdups_adj (v ! result # drop first v))"
proof (induction v result first rule: unique_loop.induct)
  case (1 v result first)
  show ?case
  proof (cases "first < length v")
    case False
    then have "unique_loop v result first = (v, result + 1)"
      by (subst unique_loop.simps) simp
    with False "1.prems" show ?thesis
      by (simp add: take_Suc_conv_app_nth)
  next
    case True
    note lt = True
    have d: "drop first v = v ! first # drop (first + 1) v"
      using lt by (simp add: Cons_nth_drop_Suc)
    show ?thesis
    proof (cases "v ! result \<noteq> v ! first")
      case False
      have "unique_loop v result first = unique_loop v result (first + 1)"
        using lt False by (simp add: unique_loop.simps [of v result first])
      moreover have "(case unique_loop v result (first + 1) of
          (v', l) \<Rightarrow> length v' = length v \<and> l \<le> length v
            \<and> take l v' = take result v @ remdups_adj (v ! result # drop (first + 1) v))"
        using "1.IH"(3) [OF lt] False "1.prems" lt by simp
      ultimately show ?thesis
        using False d by simp
    next
      case ne: True
      show ?thesis
      proof (cases "result + 1 \<noteq> first")
        case True
        let ?v = "v[result + 1 := v ! first]"
        have u: "unique_loop v result first = unique_loop ?v (result + 1) (first + 1)"
          using lt ne True by (simp add: unique_loop.simps [of v result first])
        have ih: "(case unique_loop ?v (result + 1) (first + 1) of
          (v', l) \<Rightarrow> length v' = length ?v \<and> l \<le> length ?v
            \<and> take l v' = take (result + 1) ?v
                 @ remdups_adj (?v ! (result + 1) # drop (first + 1) ?v))"
          using "1.IH"(1) [OF lt ne True] "1.prems" lt by simp
        have r: "result + 1 < length v" using "1.prems" lt by simp
        have t: "take (result + 1) ?v = take result v @ [v ! result]"
          using r by (simp add: take_Suc_conv_app_nth)
        have n: "?v ! (result + 1) = v ! first" using r by simp
        have dd: "drop (first + 1) ?v = drop (first + 1) v"
          using "1.prems" by simp
        show ?thesis
          using ih ne unfolding u t n dd d by (auto split: prod.splits)
      next
        case False
        then have e: "first = result + 1" by simp
        have u: "unique_loop v result first = unique_loop v (result + 1) (first + 1)"
          using lt ne False by (simp add: unique_loop.simps [of v result first])
        have ih: "(case unique_loop v (result + 1) (first + 1) of
          (v', l) \<Rightarrow> length v' = length v \<and> l \<le> length v
            \<and> take l v' = take (result + 1) v
                 @ remdups_adj (v ! (result + 1) # drop (first + 1) v))"
          using "1.IH"(2) [OF lt ne] False "1.prems" lt by simp
        have t: "take (result + 1) v = take result v @ [v ! result]"
          using lt e by (simp add: take_Suc_conv_app_nth)
        have n: "v ! (result + 1) = v ! first" using e by simp
        show ?thesis
          using ih ne unfolding u t n d by (auto split: prod.splits)
      qed
    qed
  qed
qed

lemma std_unique_correct:
  "(case std_unique v of
      (v', l) \<Rightarrow> length v' = length v \<and> l \<le> length v \<and> take l v' = remdups_adj v)"
proof (cases v)
  case Nil
  then show ?thesis by (simp add: std_unique_def)
next
  case (Cons x xs)
  have "(case unique_loop v 0 1 of
      (v', l) \<Rightarrow> length v' = length v \<and> l \<le> length v
        \<and> take l v' = take 0 v @ remdups_adj (v ! 0 # drop 1 v))"
    by (rule unique_loop_correct) (simp_all add: Cons)
  then show ?thesis by (simp add: std_unique_def Cons)
qed

lemma sorted_remdups_adj_strict:
  "sorted xs \<Longrightarrow> sorted_wrt (<) (remdups_adj (xs :: int list))"
proof (induction xs rule: remdups_adj.induct)
  case 1
  show ?case by simp
next
  case (2 x)
  show ?case by simp
next
  case (3 x y xs)
  show ?case
  proof (cases "x = y")
    case True
    from "3.prems" have "sorted (x # xs)" by simp
    with "3.IH"(1) True show ?thesis by simp
  next
    case False
    with "3.prems" have xy: "x < y" by simp
    have "\<forall>z \<in> set (y # xs). y \<le> z" using "3.prems" by auto
    with xy have "\<forall>z \<in> set (y # xs). x < z" by auto
    then have lt: "\<forall>z \<in> set (remdups_adj (y # xs)). x < z"
      by (simp only: remdups_adj_set)
    from "3.prems" have "sorted (y # xs)" by simp
    with "3.IH"(2) False have "sorted_wrt (<) (remdups_adj (y # xs))" by simp
    with lt False show ?thesis by simp
  qed
qed

section \<open>Properties of the Sorted-Merge Filter\<close>

subsection \<open>The cursor\<close>

text \<open>
  The cursor advance stops inside the target list at the first element that is not
  below the identifier, or at \<^verbatim>\<open>last\<close>; it has then read the element at the position
  where it stops.
\<close>

lemma advance_spec:
  "advance v l i first = Inr f \<Longrightarrow> first \<le> l \<Longrightarrow>
   first \<le> f \<and> f \<le> l \<and> f < length v
   \<and> (\<forall>j. first \<le> j \<and> j < f \<longrightarrow> v ! j < i) \<and> (f < l \<longrightarrow> i \<le> v ! f)"
proof (induction v l i first rule: advance.induct)
  case (1 v l i first)
  from "1.prems"(1) have lt: "first < length v"
    by (subst (asm) advance.simps) (auto simp: deref_def split: if_splits)
  then have d: "deref v first = Inr (v ! first)"
    by (simp add: deref_def)
  show ?case
  proof (cases "v ! first < i \<and> first \<noteq> l")
    case True
    with "1.prems"(1) d have a: "advance v l i (first + 1) = Inr f"
      by (subst (asm) advance.simps) simp
    from True "1.prems"(2) have le: "first + 1 \<le> l" by simp
    from "1.IH" [OF d True a le]
    have ih: "first + 1 \<le> f" "f \<le> l" "f < length v"
      "\<forall>j. first + 1 \<le> j \<and> j < f \<longrightarrow> v ! j < i" "f < l \<longrightarrow> i \<le> v ! f"
      by simp_all
    have "\<forall>j. first \<le> j \<and> j < f \<longrightarrow> v ! j < i"
    proof (intro allI impI)
      fix j assume j: "first \<le> j \<and> j < f"
      show "v ! j < i"
      proof (cases "j = first")
        case True
        with \<open>v ! first < i \<and> first \<noteq> l\<close> show ?thesis by simp
      next
        case False
        with j have "first + 1 \<le> j \<and> j < f" by simp
        with ih(4) show ?thesis by blast
      qed
    qed
    with ih show ?thesis by simp
  next
    case False
    with "1.prems"(1) d have "f = first"
      by (subst (asm) advance.simps) auto
    with False lt "1.prems"(2) show ?thesis by auto
  qed
qed

text \<open>
  One step of the merge-join, for both passes: the verdict \<open>ident = x\<close> of the comparison
  with the element read at the cursor, and the cursor afterwards.
\<close>

lemma merge_step:
  assumes sorted: "sorted_wrt (<) (take l v)" and l: "l \<le> length v"
    and slack: "l < length v \<longrightarrow> v ! l \<in> set (take l v)"
    and inv: "first \<le> l" "\<forall>j < first. v ! j < i"
    and adv: "advance v l i first = Inr f" and rd: "deref v f = Inr x"
  shows "(i = x) = (i \<in> set (take l v))"
    and "(if i = x then (if f \<noteq> l then f + 1 else f) else f) \<le> l"
    and "\<forall>j < (if i = x then (if f \<noteq> l then f + 1 else f) else f). v ! j \<le> i"
proof -
  from advance_spec [OF adv inv(1)]
  have f: "first \<le> f" "f \<le> l" "f < length v"
    and below: "\<forall>j. first \<le> j \<and> j < f \<longrightarrow> v ! j < i" and stop: "f < l \<longrightarrow> i \<le> v ! f"
    by simp_all
  from rd f(3) have x: "x = v ! f" by (simp add: deref_def)
  have before: "\<forall>j < f. v ! j < i"
  proof (intro allI impI)
    fix j assume "j < f"
    show "v ! j < i"
    proof (cases "j < first")
      case True with inv(2) show ?thesis by simp
    next
      case False with \<open>j < f\<close> below show ?thesis by simp
    qed
  qed
  have len: "length (take l v) = l" using l by simp
  have memI: "v ! j \<in> set (take l v)" if "j < l" for j
  proof -
    from that len have "take l v ! j \<in> set (take l v)" by (intro nth_mem) simp
    with that show ?thesis by simp
  qed
  have memE: "\<exists>j<l. y = v ! j" if "y \<in> set (take l v)" for y
  proof -
    from that obtain j where "j < length (take l v)" "take l v ! j = y"
      by (auto simp: in_set_conv_nth)
    with len show ?thesis by auto
  qed
  have mono: "\<forall>j k. j < k \<and> k < l \<longrightarrow> v ! j < v ! k"
  proof (intro allI impI)
    fix j k assume jk: "j < k \<and> k < l"
    with len have "j < k" "k < length (take l v)" by simp_all
    with sorted have "take l v ! j < take l v ! k"
      by (rule sorted_wrt_nth_less)
    with jk show "v ! j < v ! k" by simp
  qed
  show "(i = x) = (i \<in> set (take l v))"
  proof (cases "f < l")
    case True
    with stop x have le: "i \<le> x" by simp
    show ?thesis
    proof (cases "i = x")
      case True
      with x \<open>f < l\<close> memI show ?thesis by auto
    next
      case False
      with le have lt: "i < v ! f" using x by simp
      have "i \<notin> set (take l v)"
      proof
        assume "i \<in> set (take l v)"
        with memE obtain j where j: "j < l" "i = v ! j" by blast
        show False
        proof (cases "j < f")
          case True with before j show ?thesis by auto
        next
          case False
          show ?thesis
          proof (cases "j = f")
            case True with j lt show ?thesis by simp
          next
            case ne: False
            with False have "f < j" by simp
            with mono j(1) have "v ! f < v ! j" by blast
            with lt j show ?thesis by simp
          qed
        qed
      qed
      with False show ?thesis by simp
    qed
  next
    case False
    with f(2) have e: "f = l" by simp
    have nin: "i \<notin> set (take l v)"
    proof
      assume "i \<in> set (take l v)"
      with memE obtain j where j: "j < l" "i = v ! j" by blast
      with before e show False by auto
    qed
    from e f(3) slack have "v ! l \<in> set (take l v)" by simp
    with memE obtain j where j: "j < l" "v ! l = v ! j" by blast
    with before e have "v ! l < i" by auto
    with x e nin show ?thesis by simp
  qed
  show "(if i = x then (if f \<noteq> l then f + 1 else f) else f) \<le> l"
    using f(2) by auto
  show "\<forall>j < (if i = x then (if f \<noteq> l then f + 1 else f) else f). v ! j \<le> i"
  proof (intro allI impI)
    fix j assume j: "j < (if i = x then (if f \<noteq> l then f + 1 else f) else f)"
    show "v ! j \<le> i"
    proof (cases "j < f")
      case True with before show ?thesis by (simp add: less_imp_le)
    next
      case False
      with j have "j = f" "i = x" by (auto split: if_splits)
      with x show ?thesis by simp
    qed
  qed
qed


lemma push_node_refs_eq: "push_node_refs nrs ids = ids @ map nr_ref nrs"
  by (induction nrs arbitrary: ids) simp_all

lemma copy_if_nodes_selects:
  assumes "sorted_wrt (<) (take l v)" and "l \<le> length v"
    and "l < length v \<longrightarrow> v ! l \<in> set (take l v)"
  shows "copy_if_nodes v l ns first out = Inr res \<Longrightarrow>
         sorted_wrt (<) (map node_id ns) \<Longrightarrow> first \<le> l \<Longrightarrow>
         \<forall>j < first. \<forall>n \<in> set ns. v ! j < node_id n \<Longrightarrow>
         res = out @ filter (\<lambda>n. node_id n \<in> set (take l v)) ns"
proof (induction ns arbitrary: first out)
  case Nil
  then show ?case by simp
next
  case (Cons n ns)
  from Cons.prems(1) obtain f x where adv: "advance v l (node_id n) first = Inr f"
    and rd: "deref v f = Inr x"
    by (auto simp: node_pred_def split: sum.splits)
  let ?first' = "(if node_id n = x then (if f \<noteq> l then f + 1 else f) else f)"
  from adv rd have np: "node_pred v l n first = Inr (node_id n = x, ?first')"
    by (simp add: node_pred_def)
  from Cons.prems(4) have inv: "\<forall>j < first. v ! j < node_id n" by simp
  note step = merge_step [OF assms Cons.prems(3) inv adv rd]
  from np Cons.prems(1)
  have rest: "copy_if_nodes v l ns ?first' (if node_id n = x then out @ [n] else out) = Inr res"
    by simp
  from Cons.prems(2) have s: "sorted_wrt (<) (map node_id ns)"
    and gt: "\<forall>n' \<in> set ns. node_id n < node_id n'"
    by simp_all
  have inv': "\<forall>j < ?first'. \<forall>n' \<in> set ns. v ! j < node_id n'"
  proof (intro allI impI ballI)
    fix j n' assume "j < ?first'" and "n' \<in> set ns"
    with step(3) gt have "v ! j \<le> node_id n" "node_id n < node_id n'" by simp_all
    then show "v ! j < node_id n'" by simp
  qed
  from Cons.IH [OF rest s step(2) inv']
  show ?case using step(1) by simp
qed

lemma pass3_selects:
  assumes "sorted_wrt (<) (take l v)" and "l \<le> length v"
    and "l < length v \<longrightarrow> v ! l \<in> set (take l v)"
    and "sorted_wrt (<) (map node_id nodes)"
    and "pass3 v l nodes = Inr res"
  shows "res = filter (\<lambda>n. node_id n \<in> set (take l v)) nodes"
  using copy_if_nodes_selects [OF assms(1-3), of nodes 0 "[]" res] assms(4,5)
  by (simp add: pass3_def)

text \<open>What the handlers commit for a selected way.\<close>

lemma pass2_loop_selects:
  assumes "sorted_wrt (<) (take l v)" and "l \<le> length v"
    and "l < length v \<longrightarrow> v ! l \<in> set (take l v)"
  shows "pass2_loop v l wmap ws st = Inr st' \<Longrightarrow>
         sorted_wrt (<) (map way_id ws) \<Longrightarrow> p2_first st \<le> l \<Longrightarrow>
         \<forall>j < p2_first st. \<forall>w \<in> set ws. v ! j < way_id w \<Longrightarrow>
         p2_buffer st' = p2_buffer st @
           map (\<lambda>w. EWay \<lparr>way_id = way_id w,
                           way_tags = way_tags w @ (case wmap (way_id w) of None \<Rightarrow> []
                                                    | Some tagmap \<Rightarrow> tagmap),
                           way_nodes = way_nodes w\<rparr>)
             (filter (\<lambda>w. way_id w \<in> set (take l v)) ws)
         \<and> p2_node_ids st' = p2_node_ids st @
           concat (map (\<lambda>w. map nr_ref (way_nodes w))
             (filter (\<lambda>w. way_id w \<in> set (take l v)) ws))"
proof (induction ws arbitrary: st)
  case Nil
  then show ?case by simp
next
  case (Cons w ws)
  from Cons.prems(1) obtain f x where adv: "advance v l (way_id w) (p2_first st) = Inr f"
    and rd: "deref v f = Inr x"
    by (auto simp: pass2_step_def split: sum.splits)
  let ?first' = "(if way_id w = x then (if f \<noteq> l then f + 1 else f) else f)"
  let ?st1 = "(if way_id w = x then
                 \<lparr>p2_first = (if f \<noteq> l then f + 1 else f),
                  p2_buffer = p2_buffer st @
                    [EWay \<lparr>way_id = way_id w,
                           way_tags = way_tags w @ (case wmap (way_id w) of None \<Rightarrow> []
                                                    | Some tagmap \<Rightarrow> tagmap),
                           way_nodes = way_nodes w\<rparr>],
                  p2_node_ids = p2_node_ids st @ map nr_ref (way_nodes w)\<rparr>
               else st\<lparr>p2_first := f\<rparr>)"
  from adv rd have ps: "pass2_step v l wmap w st = Inr ?st1"
    by (simp add: pass2_step_def handler_way_def handler_way_changed_def copy_tags_eq
          copy_tags_tagmap_eq push_node_refs_eq split: option.splits)
  have f1: "p2_first ?st1 = ?first'" by simp
  from Cons.prems(4) have inv: "\<forall>j < p2_first st. v ! j < way_id w" by simp
  note step = merge_step [OF assms Cons.prems(3) inv adv rd]
  from ps Cons.prems(1) have rest: "pass2_loop v l wmap ws ?st1 = Inr st'"
    by simp
  from Cons.prems(2) have s: "sorted_wrt (<) (map way_id ws)"
    and gt: "\<forall>w' \<in> set ws. way_id w < way_id w'"
    by simp_all
  have inv': "\<forall>j < p2_first ?st1. \<forall>w' \<in> set ws. v ! j < way_id w'"
  proof (intro allI impI ballI)
    fix j w' assume "j < p2_first ?st1" and "w' \<in> set ws"
    with step(3) gt f1 have "v ! j \<le> way_id w" "way_id w < way_id w'" by simp_all
    then show "v ! j < way_id w'" by simp
  qed
  from step(2) f1 have le: "p2_first ?st1 \<le> l" by simp
  from Cons.IH [OF rest s le inv']
  show ?case using step(1) by simp
qed

lemma pass2_selects:
  assumes "sorted_wrt (<) (take l v)" and "l \<le> length v"
    and "l < length v \<longrightarrow> v ! l \<in> set (take l v)"
    and "sorted_wrt (<) (map way_id ways)"
    and "pass2 v l wmap ways = Inr st"
  shows "p2_buffer st =
           map (\<lambda>w. EWay \<lparr>way_id = way_id w,
                           way_tags = way_tags w @ (case wmap (way_id w) of None \<Rightarrow> []
                                                    | Some tagmap \<Rightarrow> tagmap),
                           way_nodes = way_nodes w\<rparr>)
             (filter (\<lambda>w. way_id w \<in> set (take l v)) ways)"
    and "p2_node_ids st =
           concat (map (\<lambda>w. map nr_ref (way_nodes w))
             (filter (\<lambda>w. way_id w \<in> set (take l v)) ways))"
  using pass2_loop_selects [OF assms(1-3), of wmap ways
      "\<lparr>p2_first = 0, p2_buffer = [], p2_node_ids = []\<rparr>" st] assms(4,5)
  by (simp_all add: pass2_def)

subsection \<open>The element at the position \<^verbatim>\<open>last\<close>\<close>

lemma unique_loop_rest:
  "result < first \<Longrightarrow> first \<le> length v \<Longrightarrow>
   (case unique_loop v result first of
      (v', l) \<Rightarrow> result < l \<and> (\<forall>j. l \<le> j \<and> j < length v \<longrightarrow> v' ! j = v ! j))"
proof (induction v result first rule: unique_loop.induct)
  case (1 v result first)
  show ?case
  proof (cases "first < length v")
    case False
    then have "unique_loop v result first = (v, result + 1)"
      by (subst unique_loop.simps) simp
    then show ?thesis by simp
  next
    case lt: True
    show ?thesis
    proof (cases "v ! result \<noteq> v ! first")
      case False
      have u: "unique_loop v result first = unique_loop v result (first + 1)"
        using lt False by (simp add: unique_loop.simps [of v result first])
      show ?thesis
        unfolding u using "1.IH"(3) [OF lt] False "1.prems" lt by simp
    next
      case ne: True
      show ?thesis
      proof (cases "result + 1 \<noteq> first")
        case True
        let ?v = "v[result + 1 := v ! first]"
        have u: "unique_loop v result first = unique_loop ?v (result + 1) (first + 1)"
          using lt ne True by (simp add: unique_loop.simps [of v result first])
        have ih: "(case unique_loop ?v (result + 1) (first + 1) of
          (v', l) \<Rightarrow> result + 1 < l \<and> (\<forall>j. l \<le> j \<and> j < length ?v \<longrightarrow> v' ! j = ?v ! j))"
          using "1.IH"(1) [OF lt ne True] "1.prems" lt by simp
        show ?thesis
          unfolding u using ih by (auto split: prod.splits)
      next
        case False
        have u: "unique_loop v result first = unique_loop v (result + 1) (first + 1)"
          using lt ne False by (simp add: unique_loop.simps [of v result first])
        have ih: "(case unique_loop v (result + 1) (first + 1) of
          (v', l) \<Rightarrow> result + 1 < l \<and> (\<forall>j. l \<le> j \<and> j < length v \<longrightarrow> v' ! j = v ! j))"
          using "1.IH"(2) [OF lt ne] False "1.prems" lt by simp
        show ?thesis
          unfolding u using ih by (auto split: prod.splits)
      qed
    qed
  qed
qed

text \<open>
  After \<^verbatim>\<open>std::sort\<close> and \<^verbatim>\<open>std::unique\<close>, an element left at the position \<^verbatim>\<open>last\<close> is
  one of the identifiers of the target list.
\<close>

lemma prepare_ids_slack:
  assumes "prepare_ids ids = (v, l)" and "l < length v"
  shows "v ! l \<in> set (take l v)"
proof -
  from assms(1) have su: "std_unique (sort ids) = (v, l)"
    by (simp add: prepare_ids_def)
  with std_unique_correct [of "sort ids"]
  have len: "length v = length (sort ids)" and t: "take l v = remdups_adj (sort ids)"
    by simp_all
  from assms(2) len have pos: "1 \<le> length (sort ids)" by linarith
  then have ne: "sort ids \<noteq> []" by (cases "sort ids") simp_all
  with su have ul: "unique_loop (sort ids) 0 1 = (v, l)"
    by (simp add: std_unique_def)
  have "(case unique_loop (sort ids) 0 1 of
      (v', l) \<Rightarrow> 0 < l \<and> (\<forall>j. l \<le> j \<and> j < length (sort ids) \<longrightarrow> v' ! j = sort ids ! j))"
    by (rule unique_loop_rest [OF _ pos]) simp
  with ul assms(2) len have "v ! l = sort ids ! l" by simp
  moreover have "sort ids ! l \<in> set (sort ids)"
    using assms(2) len by (intro nth_mem) simp
  moreover have "set (take l v) = set (sort ids)"
    by (simp only: t remdups_adj_set)
  ultimately show ?thesis by simp
qed

text \<open>
  When the vector has an element at the position \<^verbatim>\<open>last\<close> (some identifier was collected
  more than once), the cursor never leaves the vector and no read fails.
\<close>

lemma advance_within:
  "l < length v \<Longrightarrow> first \<le> l \<Longrightarrow> \<exists>f. advance v l i first = Inr f"
proof (induction v l i first rule: advance.induct)
  case (1 v l i first)
  from "1.prems" have d: "deref v first = Inr (v ! first)"
    by (simp add: deref_def)
  show ?case
  proof (cases "v ! first < i \<and> first \<noteq> l")
    case True
    with "1.prems" have "first + 1 \<le> l" by simp
    from "1.IH" [OF d True "1.prems"(1) this]
    obtain f where "advance v l i (first + 1) = Inr f" by blast
    with d True show ?thesis
      by (subst advance.simps) simp
  next
    case False
    with d show ?thesis
      by (subst advance.simps) auto
  qed
qed

lemma node_pred_within:
  assumes "l < length v" and "first \<le> l"
  shows "\<exists>sel first'. node_pred v l n first = Inr (sel, first') \<and> first' \<le> l"
proof -
  from advance_within [OF assms] obtain f where adv: "advance v l (node_id n) first = Inr f"
    by blast
  from advance_spec [OF adv assms(2)] have f: "f \<le> l" "f < length v" by simp_all
  then have "deref v f = Inr (v ! f)" by (simp add: deref_def)
  with adv f(1) show ?thesis
    by (auto simp: node_pred_def)
qed

lemma copy_if_nodes_within:
  "l < length v \<Longrightarrow> first \<le> l \<Longrightarrow> \<exists>res. copy_if_nodes v l ns first out = Inr res"
proof (induction ns arbitrary: first out)
  case Nil
  show ?case by simp
next
  case (Cons n ns)
  from node_pred_within [OF Cons.prems, of n]
  obtain sel first' where np: "node_pred v l n first = Inr (sel, first')" and le: "first' \<le> l"
    by blast
  from Cons.IH [OF Cons.prems(1) le, of "if sel then out @ [n] else out"] np
  show ?case by simp
qed

lemma pass2_step_within:
  assumes "l < length v" and "p2_first st \<le> l"
  shows "\<exists>st'. pass2_step v l wmap w st = Inr st' \<and> p2_first st' \<le> l"
proof -
  from advance_within [OF assms] obtain f
    where adv: "advance v l (way_id w) (p2_first st) = Inr f"
    by blast
  from advance_spec [OF adv assms(2)] have f: "f \<le> l" "f < length v" by simp_all
  then have "deref v f = Inr (v ! f)" by (simp add: deref_def)
  with adv f(1) show ?thesis
    by (auto simp: pass2_step_def)
qed

lemma pass2_loop_within:
  "l < length v \<Longrightarrow> p2_first st \<le> l \<Longrightarrow> \<exists>st'. pass2_loop v l wmap ws st = Inr st'"
proof (induction ws arbitrary: st)
  case Nil
  show ?case by simp
next
  case (Cons w ws)
  from pass2_step_within [OF Cons.prems, of wmap w]
  obtain st1 where ps: "pass2_step v l wmap w st = Inr st1" and le: "p2_first st1 \<le> l"
    by blast
  from Cons.IH [OF Cons.prems(1) le] ps
  show ?case by simp
qed

subsection \<open>The passes on the prepared vectors\<close>

lemma prepare_ids_sorted:
  assumes "prepare_ids ids = (v, l)"
  shows "l \<le> length v" and "sorted_wrt (<) (take l v)" and "set (take l v) = set ids"
proof -
  from assms std_unique_correct [of "sort ids"]
  have t: "take l v = remdups_adj (sort ids)" and l: "l \<le> length v"
    by (simp_all add: prepare_ids_def)
  show "l \<le> length v" by (rule l)
  have "sorted_wrt (<) (remdups_adj (sort ids))"
    by (rule sorted_remdups_adj_strict) simp
  then show "sorted_wrt (<) (take l v)"
    by (simp only: t)
  have "set (remdups_adj (sort ids)) = set ids"
    by simp
  then show "set (take l v) = set ids"
    by (simp only: t)
qed

lemma prepare_ids_duplicate:
  assumes "prepare_ids ids = (v, l)" and "\<not> distinct ids"
  shows "l < length v"
proof -
  note p = prepare_ids_sorted [OF assms(1)]
  from assms(1) std_unique_correct [of "sort ids"]
  have len: "length v = length ids"
    by (simp add: prepare_ids_def)
  from p(2) have "distinct (take l v)"
    by (simp add: strict_sorted_iff)
  then have "card (set (take l v)) = length (take l v)"
    by (rule distinct_card)
  with p(1) p(3) have c: "card (set ids) = l" by simp
  have "card (set ids) \<le> length ids" by (rule card_length)
  moreover have "card (set ids) \<noteq> length ids"
    using assms(2) card_distinct by blast
  ultimately show ?thesis using c len by simp
qed

text \<open>
  Pass 2 and pass 3 on the prepared vectors. When the pass returns, it has selected
  exactly the entities of the stream whose identifier was collected, in stream order;
  and it returns whenever some identifier was collected more than once.
\<close>

lemma pass2_selects_collected:
  assumes "prepare_ids ids = (v, l)" and "sorted_wrt (<) (map way_id ways)"
    and "pass2 v l wmap ways = Inr st"
  shows "p2_buffer st =
           map (\<lambda>w. EWay \<lparr>way_id = way_id w,
                           way_tags = way_tags w @ (case wmap (way_id w) of None \<Rightarrow> []
                                                    | Some tagmap \<Rightarrow> tagmap),
                           way_nodes = way_nodes w\<rparr>)
             (filter (\<lambda>w. way_id w \<in> set ids) ways)"
    and "p2_node_ids st =
           concat (map (\<lambda>w. map nr_ref (way_nodes w))
             (filter (\<lambda>w. way_id w \<in> set ids) ways))"
proof -
  note p = prepare_ids_sorted [OF assms(1)]
  have slack: "l < length v \<longrightarrow> v ! l \<in> set (take l v)"
    using prepare_ids_slack [OF assms(1)] by blast
  from pass2_selects [OF p(2) p(1) slack assms(2) assms(3)]
  show "p2_buffer st =
           map (\<lambda>w. EWay \<lparr>way_id = way_id w,
                           way_tags = way_tags w @ (case wmap (way_id w) of None \<Rightarrow> []
                                                    | Some tagmap \<Rightarrow> tagmap),
                           way_nodes = way_nodes w\<rparr>)
             (filter (\<lambda>w. way_id w \<in> set ids) ways)"
    and "p2_node_ids st =
           concat (map (\<lambda>w. map nr_ref (way_nodes w))
             (filter (\<lambda>w. way_id w \<in> set ids) ways))"
    by (simp_all only: p(3))
qed

lemma pass3_selects_collected:
  assumes "prepare_ids ids = (v, l)" and "sorted_wrt (<) (map node_id nodes)"
    and "pass3 v l nodes = Inr res"
  shows "res = filter (\<lambda>n. node_id n \<in> set ids) nodes"
proof -
  note p = prepare_ids_sorted [OF assms(1)]
  have slack: "l < length v \<longrightarrow> v ! l \<in> set (take l v)"
    using prepare_ids_slack [OF assms(1)] by blast
  from pass3_selects [OF p(2) p(1) slack assms(2) assms(3)]
  show ?thesis by (simp only: p(3))
qed

lemma pass2_returns_with_duplicate:
  assumes "prepare_ids ids = (v, l)" and "\<not> distinct ids"
  shows "\<exists>st. pass2 v l wmap ways = Inr st"
  unfolding pass2_def
  by (rule pass2_loop_within [OF prepare_ids_duplicate [OF assms]]) simp

lemma pass3_returns_with_duplicate:
  assumes "prepare_ids ids = (v, l)" and "\<not> distinct ids"
  shows "\<exists>res. pass3 v l nodes = Inr res"
  unfolding pass3_def
  by (rule copy_if_nodes_within [OF prepare_ids_duplicate [OF assms]]) simp

subsection \<open>Reads at the end of the vector\<close>

text \<open>
  C2, as the code has it. The claim: at the boundary every comparison is guarded, and
  the position one past the end of the target list is never read. The loop condition
  \<^verbatim>\<open>*first < id && first != last\<close> reads the element before it compares the
  positions, and \<^verbatim>\<open>id == *first\<close> is not guarded at all. With an empty target list the
  first way or node makes the code read the end position; with the target list [5]
  (no duplicate, so \<^verbatim>\<open>last\<close> is the end of the vector) the entity after 5 does.
\<close>

theorem cursor_at_end_is_dereferenced:
  "pass2 [] 0 Map.empty [\<lparr>way_id = 1, way_tags = [], way_nodes = []\<rparr>] = Inl DerefPastEnd
   \<and> pass3 [] 0 [\<lparr>node_id = 1, node_location = (0, 0), node_tags = []\<rparr>] = Inl DerefPastEnd
   \<and> advance [] 0 1 0 = Inl DerefPastEnd
   \<and> prepare_ids [5] = ([5], 1)
   \<and> pass2 [5] 1 Map.empty [\<lparr>way_id = 5, way_tags = [], way_nodes = []\<rparr>,
                              \<lparr>way_id = 6, way_tags = [], way_nodes = []\<rparr>] = Inl DerefPastEnd
   \<and> pass3 [5] 1 [\<lparr>node_id = 5, node_location = (0, 0), node_tags = []\<rparr>,
                   \<lparr>node_id = 6, node_location = (0, 0), node_tags = []\<rparr>] = Inl DerefPastEnd"
  by (simp add: pass2_def pass2_step_def pass3_def node_pred_def advance.simps deref_def
        prepare_ids_def std_unique_def unique_loop.simps)

text \<open>
  C1, as the code has it. The claim: for a sorted, duplicate-free target list and a
  sorted stream, the filter selects exactly the entities whose identifier is in the
  list, in stream order. Where a pass returns, it has done so
  (\<open>pass2_selects_collected\<close>, \<open>pass3_selects_collected\<close>), and it returns when an
  identifier was collected twice (\<open>pass2_returns_with_duplicate\<close>,
  \<open>pass3_returns_with_duplicate\<close>). For an input without a selected relation and with
  one way, the target list of pass 2 is empty and the claim has no way selected; the
  code reads the end position of the empty vector, and the run has no defined result.
\<close>

theorem merge_filter_reads_past_end_of_target_list:
  "run_passes \<lparr>waymap = Map.empty, yesborder = {}, noborder = {}\<rparr>
     \<lparr>ds_relations = [],
      ds_ways = [\<lparr>way_id = 1, way_tags = [], way_nodes = []\<rparr>],
      ds_nodes = []\<rparr> = Inl DerefPastEnd
   \<and> status (main [Opt_o ''out.pbf''] 1
        (Inr \<lparr>ds_relations = [],
              ds_ways = [\<lparr>way_id = 1, way_tags = [], way_nodes = []\<rparr>],
              ds_nodes = []\<rparr>)) = Undefined DerefPastEnd"
  by (simp add: main_def run_passes_def pass1_def prepare_ids_def std_unique_def pass2_def
        pass2_step_def advance.simps deref_def)

section \<open>Properties of the Pipeline Driver\<close>

text \<open>
  C6. In \<open>run_passes\<close>, the merge-join of pass 2 runs on the vector \<^verbatim>\<open>way_ids\<close> as
  \<^verbatim>\<open>std::sort\<close> and \<^verbatim>\<open>std::unique\<close> leave it, with the position \<^verbatim>\<open>last\<close> that
  \<^verbatim>\<open>std::unique\<close> returned: its target list, the range from the start of the vector to
  \<^verbatim>\<open>last\<close>, is strictly ascending (sorted and free of duplicates) and holds the
  identifiers collected in pass 1. When pass 2 returns, the merge-join of pass 3 runs
  in the same way on \<^verbatim>\<open>node_ids\<close>: its target list is strictly ascending and holds the
  identifiers collected in pass 2.
\<close>

theorem target_lists_sorted_and_duplicate_free:
  "\<exists>v l. prepare_ids (p1_way_ids (pass1 cfg (ds_relations ds))) = (v, l)
     \<and> l \<le> length v \<and> sorted_wrt (<) (take l v)
     \<and> set (take l v) = set (p1_way_ids (pass1 cfg (ds_relations ds)))
     \<and> (case pass2 v l (waymap cfg) (ds_ways ds) of
           Inl e \<Rightarrow> run_passes cfg ds = Inl e
         | Inr st2 \<Rightarrow>
             (\<exists>v2 l2. prepare_ids (p2_node_ids st2) = (v2, l2)
                \<and> l2 \<le> length v2 \<and> sorted_wrt (<) (take l2 v2)
                \<and> set (take l2 v2) = set (p2_node_ids st2)
                \<and> run_passes cfg ds =
                    (case pass3 v2 l2 (ds_nodes ds) of
                       Inl e \<Rightarrow> Inl e
                     | Inr nodes \<Rightarrow>
                         Inr (map ERelation (p1_out (pass1 cfg (ds_relations ds)))
                              @ p2_buffer st2 @ map ENode nodes))))"
proof -
  obtain v l where p: "prepare_ids (p1_way_ids (pass1 cfg (ds_relations ds))) = (v, l)"
    by (cases "prepare_ids (p1_way_ids (pass1 cfg (ds_relations ds)))")
  note s1 = prepare_ids_sorted [OF p]
  have rest: "(case pass2 v l (waymap cfg) (ds_ways ds) of
           Inl e \<Rightarrow> run_passes cfg ds = Inl e
         | Inr st2 \<Rightarrow>
             (\<exists>v2 l2. prepare_ids (p2_node_ids st2) = (v2, l2)
                \<and> l2 \<le> length v2 \<and> sorted_wrt (<) (take l2 v2)
                \<and> set (take l2 v2) = set (p2_node_ids st2)
                \<and> run_passes cfg ds =
                    (case pass3 v2 l2 (ds_nodes ds) of
                       Inl e \<Rightarrow> Inl e
                     | Inr nodes \<Rightarrow>
                         Inr (map ERelation (p1_out (pass1 cfg (ds_relations ds)))
                              @ p2_buffer st2 @ map ENode nodes))))"
  proof (cases "pass2 v l (waymap cfg) (ds_ways ds)")
    case (Inl e)
    with p show ?thesis by (simp add: run_passes_def)
  next
    case (Inr st2)
    obtain v2 l2 where p2: "prepare_ids (p2_node_ids st2) = (v2, l2)"
      by (cases "prepare_ids (p2_node_ids st2)")
    note s2 = prepare_ids_sorted [OF p2]
    have "run_passes cfg ds =
                    (case pass3 v2 l2 (ds_nodes ds) of
                       Inl e \<Rightarrow> Inl e
                     | Inr nodes \<Rightarrow>
                         Inr (map ERelation (p1_out (pass1 cfg (ds_relations ds)))
                              @ p2_buffer st2 @ map ENode nodes))"
      using p Inr p2 by (simp add: run_passes_def)
    with p2 s2 Inr show ?thesis by simp
  qed
  from p s1 rest show ?thesis by blast
qed

text \<open>
  C9. For an input dataset without relations, ways and nodes, and a command line that
  passes the option loop and names an output file, the run ends normally (exit status
  0) and the output file holds the header with the generator name
  \<^verbatim>\<open>osmborder_filter\<close> and the bounding box from -180, -90 to 180, 90 (all valid
  longitudes and latitudes), and no entity.
\<close>

theorem empty_dataset_gives_header_without_entities:
  assumes "getopt_loop cmdline
             \<lparr>output_filename = [], verbose = False,
              opt_config = \<lparr>waymap = Map.empty, yesborder = {}, noborder = {}\<rparr>,
              no_json_err = True\<rparr> = Inr opts"
    and "output_filename opts \<noteq> []"
  shows "main cmdline 1 (Inr \<lparr>ds_relations = [], ds_ways = [], ds_nodes = []\<rparr>) =
           \<lparr>status = Returned,
            stderr = (if no_json_err opts then []
                      else [''changefile gave error, not using\<newline>'']),
            written = Some (\<lparr>generator = ''osmborder_filter'',
                              boxes = [\<lparr>box_min_lon = -180, box_min_lat = -90,
                                        box_max_lon = 180, box_max_lat = 90\<rparr>]\<rparr>, [])\<rparr>"
proof -
  have "run_passes (opt_config opts) \<lparr>ds_relations = [], ds_ways = [], ds_nodes = []\<rparr> = Inr []"
    by (simp add: run_passes_def pass1_def prepare_ids_def std_unique_def pass2_def pass3_def)
  with assms show ?thesis
    by (simp add: main_def header_def)
qed

theorem empty_dataset_gives_header_without_entities_witness:
  "main [Opt_v, Opt_o ''out.pbf''] 1 (Inr \<lparr>ds_relations = [], ds_ways = [], ds_nodes = []\<rparr>) =
           \<lparr>status = Returned, stderr = [],
            written = Some (\<lparr>generator = ''osmborder_filter'',
                              boxes = [\<lparr>box_min_lon = -180, box_min_lat = -90,
                                        box_max_lon = 180, box_max_lat = 90\<rparr>]\<rparr>, [])\<rparr>"
proof -
  let ?opts = "\<lparr>output_filename = ''out.pbf'', verbose = True,
              opt_config = \<lparr>waymap = Map.empty, yesborder = {}, noborder = {}\<rparr>,
              no_json_err = True\<rparr>"
  have h1: "getopt_loop [Opt_v, Opt_o ''out.pbf'']
             \<lparr>output_filename = [], verbose = False,
              opt_config = \<lparr>waymap = Map.empty, yesborder = {}, noborder = {}\<rparr>,
              no_json_err = True\<rparr> = Inr ?opts"
    by simp
  have h2: "output_filename ?opts \<noteq> []" by simp
  from empty_dataset_gives_header_without_entities [OF h1 h2] show ?thesis by simp
qed

end
